theory Spec2Isabelle
  imports Main "HOL-Library.AList" "HOL-Library.Sublist" "HOL-Library.Multiset"
begin

section \<open>Strings, entries and the key/value store\<close>

text \<open>
  A JavaScript string is a sequence of UTF-16 code units; \<open>length\<close>, \<open>substring\<close>,
  \<open>startsWith\<close> and the character classes of the regular expressions all work on code
  units, so a string is modelled as a list of code units (integers from 0 to 65535).
  \<open>js\<close> turns an ASCII literal of the source into such a string.
\<close>

type_synonym jsstring = "int list"

definition js :: "string \<Rightarrow> jsstring" where
  "js s = map of_char s"

text \<open>
  \<open>text[0]\<close> interpolated into a template literal: the first code unit, or the text
  \<open>undefined\<close> when the string is empty.
\<close>

definition charAt0 :: "jsstring \<Rightarrow> jsstring" where
  "charAt0 s = (case s of [] \<Rightarrow> js ''undefined'' | c # _ \<Rightarrow> [c])"

definition DICTIONARY_KEY :: jsstring where
  "DICTIONARY_KEY = js ''Yomicord_Dictionaries''"

definition DICTIONARY_INDEX_KEY :: jsstring where
  "DICTIONARY_INDEX_KEY = js ''Yomicord_Dictionary_Index''"

text \<open>The interface \<open>DictionaryEntry\<close>; the field \<open>term\<close> is written \<open>term'\<close>.\<close>

record DictionaryEntry =
  term' :: jsstring
  reading :: jsstring
  definitions :: "jsstring list"
  tags :: "jsstring list"
  score :: int
  dictionary :: "jsstring option"

record DictionaryMetadata =
  title :: jsstring
  revision :: jsstring
  sequenced :: bool

text \<open>
  A bucket is the object stored under one data key: index key (a term or a reading) to the
  array of entries, in the object's own key order. The index is the object of installed
  dictionaries, in key order.
\<close>

type_synonym bucket = "(jsstring \<times> DictionaryEntry list) list"

type_synonym DictionaryIndex = "(jsstring \<times> DictionaryMetadata) list"

datatype stored = StoredIndex DictionaryIndex | StoredBucket bucket

type_synonym datastore = "(jsstring \<times> stored) list"

text \<open>
  Modelled from the spec: the key/value store \<open>@api/DataStore\<close> (\<open>get\<close>, \<open>set\<close>,
  \<open>keys\<close>, \<open>delMany\<close>) is not among the sources; section 6 of the specification gives
  its contract: \<open>get(key) -> value | absent\<close>, \<open>set(key, value)\<close>,
  \<open>keys() -> sequence of key\<close>, \<open>deleteMany(keys)\<close>.
\<close>

definition ds_get :: "jsstring \<Rightarrow> datastore \<Rightarrow> stored option" where
  "ds_get k s = map_of s k"

definition ds_set :: "jsstring \<Rightarrow> stored \<Rightarrow> datastore \<Rightarrow> datastore" where
  "ds_set k v s = AList.update k v s"

definition ds_keys :: "datastore \<Rightarrow> jsstring list" where
  "ds_keys s = map fst s"

definition ds_delMany :: "jsstring list \<Rightarrow> datastore \<Rightarrow> datastore" where
  "ds_delMany ks s = filter (\<lambda>kv. fst kv \<notin> set ks) s"

text \<open>
  The module's state: the store, the two module-level \<open>Map\<close>s (in insertion order of
  their keys; a record is the pair of the value and its timestamp) and the clock that
  \<open>Date.now()\<close> reads. One call reads one clock value; the clock moves between calls.
\<close>

record world =
  store :: datastore
  searchCache :: "(jsstring \<times> (DictionaryEntry list \<times> int)) list"
  dataStoreCache :: "(jsstring \<times> (bucket option \<times> int)) list"
  now :: int

definition CACHE_TTL :: int where
  "CACHE_TTL = 5000"

definition MAX_CACHE_SIZE :: nat where
  "MAX_CACHE_SIZE = 100"

definition DATASTORE_CACHE_TTL :: int where
  "DATASTORE_CACHE_TTL = 10000"

definition getDictionaryIndex :: "world \<Rightarrow> DictionaryIndex" where
  "getDictionaryIndex w =
     (case ds_get DICTIONARY_INDEX_KEY (store w) of
        Some (StoredIndex index) \<Rightarrow> index
      | _ \<Rightarrow> [])"

section \<open>The bucket cache\<close>

text \<open>What \<open>DataStore.get(dataKey)\<close> yields for a data key: the bucket, or \<open>undefined\<close>.\<close>

definition readBucket :: "jsstring \<Rightarrow> datastore \<Rightarrow> bucket option" where
  "readBucket dataKey s =
     (case ds_get dataKey s of Some (StoredBucket b) \<Rightarrow> Some b | _ \<Rightarrow> None)"

text \<open>
  \<open>getDataStoreData\<close>. \<open>Map.set\<close> keeps the position of a key that is present and
  appends a new one; \<open>keys().next().value\<close> is the first key, and deleting it removes
  the head. The hit and miss counters only feed the log and are left out.
\<close>

definition getDataStoreData :: "jsstring \<Rightarrow> jsstring \<Rightarrow> world \<Rightarrow> bucket option \<times> world" where
  "getDataStoreData dictionaryName firstChar w =
     (let cacheKey = dictionaryName @ js ''_'' @ firstChar;
          cached = map_of (dataStoreCache w) cacheKey
      in if (case cached of Some (d, timestamp) \<Rightarrow> now w - timestamp < DATASTORE_CACHE_TTL
                          | None \<Rightarrow> False)
         then (fst (the cached), w)
         else
           (let dataKey = DICTIONARY_KEY @ js ''_'' @ dictionaryName @ js ''_'' @ firstChar;
                data = readBucket dataKey (store w);
                c1 = AList.update cacheKey (data, now w) (dataStoreCache w);
                c2 = (if length c1 > 50 then tl c1 else c1)
            in (data, w\<lparr>dataStoreCache := c2\<rparr>)))"

section \<open>Array.prototype.sort\<close>

text \<open>
  \<open>Array.prototype.sort\<close> with a comparator is stable. Where the comparator is consistent on
  the elements sorted (the order it induces on them is total and transitive), the language
  fixes the result: the elements in ascending order, equal ones in their original order. A
  stable insertion sort computes that list, and it is the model: an element goes in front
  of the first later element it does not compare greater than.

  Where the comparator is not consistent on the elements, the language leaves the order to
  the engine, which returns some permutation; \<open>jsSort\<close> then gives one such permutation
  and no more. Three of the comparators of the program are differences of two numbers
  (\<open>lengthDescending\<close>, \<open>scoreDescending\<close>, \<open>entryScoreDescending\<close>) and consistent on
  every input. The fourth, \<open>compareResults\<close>, is not: the order of its result is read only
  under the hypothesis that it is transitive on the matches sorted, and otherwise only the
  multiset of the result is.
\<close>

fun insertBy :: "('a \<Rightarrow> 'a \<Rightarrow> int) \<Rightarrow> 'a \<Rightarrow> 'a list \<Rightarrow> 'a list" where
  "insertBy cmp x [] = [x]"
| "insertBy cmp x (y # ys) = (if cmp x y \<le> 0 then x # y # ys else y # insertBy cmp x ys)"

definition jsSort :: "('a \<Rightarrow> 'a \<Rightarrow> int) \<Rightarrow> 'a list \<Rightarrow> 'a list" where
  "jsSort cmp xs = foldr (insertBy cmp) xs []"

section \<open>Searching one dictionary\<close>

datatype matchType = Exact | Prefix

definition entryKey :: "DictionaryEntry \<Rightarrow> jsstring" where
  "entryKey entry = term' entry @ js ''|'' @ reading entry"

text \<open>
  The inner loops of \<open>searchInDictionary\<close>: push an entry that matches and whose key
  \<open>term|reading\<close> has not been seen.
\<close>

definition pushUnseen :: "(DictionaryEntry \<Rightarrow> bool) \<Rightarrow> DictionaryEntry \<Rightarrow>
    DictionaryEntry list \<times> jsstring set \<Rightarrow> DictionaryEntry list \<times> jsstring set" where
  "pushUnseen matches entry acc =
     (if matches entry \<and> entryKey entry \<notin> snd acc
      then (fst acc @ [entry], insert (entryKey entry) (snd acc))
      else acc)"

definition searchInDictionary :: "jsstring \<Rightarrow> jsstring \<Rightarrow> matchType \<Rightarrow> world \<Rightarrow>
    DictionaryEntry list \<times> world" where
  "searchInDictionary dictionaryName term matchType w =
     (if term = [] then ([], w)
      else
        (case getDataStoreData dictionaryName (charAt0 term) w of
           (data, w1) \<Rightarrow>
             (case matchType of
                Exact \<Rightarrow>
                  (case data of
                     None \<Rightarrow> ([], w1)
                   | Some d \<Rightarrow>
                       (case map_of d term of
                          None \<Rightarrow> ([], w1)
                        | Some entries \<Rightarrow>
                            (fst (fold (pushUnseen (\<lambda>entry. term' entry = term \<or>
                                     (reading entry \<noteq> [] \<and> reading entry = term)))
                                   entries ([], {})), w1)))
              | Prefix \<Rightarrow>
                  (case data of
                     None \<Rightarrow> ([], w1)
                   | Some d \<Rightarrow>
                       (fst (fold (pushUnseen (\<lambda>entry. prefix term (term' entry) \<or>
                                (reading entry \<noteq> [] \<and> prefix term (reading entry))))
                              (concat (map snd d)) ([], {})), w1)))))"

definition findAllReadingsForTerm :: "jsstring \<Rightarrow> jsstring \<Rightarrow> world \<Rightarrow>
    DictionaryEntry list \<times> world" where
  "findAllReadingsForTerm dictionaryName term w =
     (case searchInDictionary dictionaryName term Exact w of
        (entries, w1) \<Rightarrow> (filter (\<lambda>entry. term' entry = term) entries, w1))"

section \<open>Partial-reading search\<close>

definition convertKatakanaToHiragana :: "jsstring \<Rightarrow> jsstring" where
  "convertKatakanaToHiragana text =
     map (\<lambda>code. if 0x30A0 \<le> code \<and> code \<le> 0x30FF
                  then (if 0x30A1 \<le> code \<and> code \<le> 0x30F6 then code - 0x60 else code)
                  else code) text"

fun getCommonPrefix :: "jsstring \<Rightarrow> jsstring \<Rightarrow> jsstring" where
  "getCommonPrefix (a # str1) (b # str2) = (if a = b then a # getCommonPrefix str1 str2 else [])"
| "getCommonPrefix _ _ = []"

text \<open>
  The state of the loops of \<open>searchByPartialReading\<close>: the scored results, the seen keys
  and the module state.
\<close>

definition partialEntry :: "jsstring \<Rightarrow> nat \<Rightarrow> nat \<Rightarrow> DictionaryEntry \<Rightarrow>
    (DictionaryEntry \<times> int) list \<times> jsstring set \<Rightarrow> (DictionaryEntry \<times> int) list \<times> jsstring set" where
  "partialEntry pfx minMatchLength prefixLength entry acc =
     (if entryKey entry \<in> snd acc then acc
      else
        (let entryReading = convertKatakanaToHiragana (reading entry);
             commonPrefix = getCommonPrefix pfx entryReading
         in if length commonPrefix \<ge> minMatchLength
            then (fst acc @ [(entry, int (length commonPrefix) * 1000 + int prefixLength)],
                  insert (entryKey entry) (snd acc))
            else acc))"

definition partialStep :: "jsstring \<Rightarrow> jsstring \<Rightarrow> nat \<Rightarrow> nat \<Rightarrow>
    ((DictionaryEntry \<times> int) list \<times> jsstring set) \<times> world \<Rightarrow>
    ((DictionaryEntry \<times> int) list \<times> jsstring set) \<times> world" where
  "partialStep dictionaryName searchReading minMatchLength prefixLength st =
     (let pfx = take prefixLength searchReading in
      case getDataStoreData dictionaryName (charAt0 pfx) (snd st) of
        (data, w1) \<Rightarrow>
          (case data of
             None \<Rightarrow> (fst st, w1)
           | Some d \<Rightarrow>
               (fold (partialEntry pfx minMatchLength prefixLength) (concat (map snd d)) (fst st),
                w1)))"

definition scoreDescending :: "'a \<times> int \<Rightarrow> 'a \<times> int \<Rightarrow> int" where
  "scoreDescending a b = snd b - snd a"

definition searchByPartialReading :: "jsstring \<Rightarrow> jsstring \<Rightarrow> nat \<Rightarrow> world \<Rightarrow>
    DictionaryEntry list \<times> world" where
  "searchByPartialReading dictionaryName searchTerm minMatchLength w =
     (let searchReading = convertKatakanaToHiragana searchTerm in
      if length searchReading < minMatchLength then ([], w)
      else
        (case fold (partialStep dictionaryName searchReading minMatchLength)
                (rev [minMatchLength ..< Suc (length searchReading)]) (([], {}), w) of
           ((results, seen), w1) \<Rightarrow> (map fst (jsSort scoreDescending results), w1)))"

section \<open>Deinflection candidates\<close>

text \<open>
  The rule engine (\<open>LanguageTransformer\<close> with \<open>japaneseTransforms\<close>) is not among the
  sources; it is a parameter \<open>transform\<close> giving the \<open>text\<close> fields of its results, or
  \<open>None\<close> when it throws.
\<close>

definition getDeinflectionCandidates :: "(jsstring \<Rightarrow> jsstring list option) \<Rightarrow> jsstring \<Rightarrow>
    jsstring list" where
  "getDeinflectionCandidates transform text =
     (case transform text of
        None \<Rightarrow> [text]
      | Some rs \<Rightarrow>
          fold (\<lambda>r candidates. if r \<noteq> text \<and> r \<notin> set candidates then candidates @ [r]
                                 else candidates) rs [text])"

section \<open>lookupTerm\<close>

text \<open>\<open>Set.add\<close>, with the set kept in its iteration (first insertion) order.\<close>

definition setAdd :: "'a \<Rightarrow> 'a list \<Rightarrow> 'a list" where
  "setAdd x xs = (if x \<in> set xs then xs else xs @ [x])"

definition containsKanji :: "jsstring \<Rightarrow> bool" where
  "containsKanji s = (\<exists>c \<in> set s. 0x4E00 \<le> c \<and> c \<le> 0x9FFF)"

record ResultWithLength =
  entry :: DictionaryEntry
  originalTextLength :: nat
  fromDeinflection :: bool
  readingExactMatch :: bool

text \<open>
  The local variables of \<open>lookupTerm\<close> that its loops and its helper closure
  \<open>searchAllReadingsForTerm\<close> update, together with the module state \<open>env\<close>.
  The awaited searches of a \<open>Promise.all\<close> are run one after the other, in the order
  of the array. Logging and timing are left out.
\<close>

record lookupState =
  results :: "DictionaryEntry list"
  seen :: "jsstring set"
  kanjiTermsSearched :: "jsstring set"
  resultsWithLength :: "ResultWithLength list"
  maxOriginalTextLength :: nat
  foundAtThisLength :: bool
  env :: world

definition recordKey :: "jsstring \<Rightarrow> DictionaryEntry \<Rightarrow> jsstring" where
  "recordKey dictName e = dictName @ js ''|'' @ term' e @ js ''|'' @ reading e"

text \<open>
  The three statements that follow every accepted match: \<open>resultsWithLength.push\<close>,
  \<open>seen.add(key)\<close> and the update of \<open>maxOriginalTextLength\<close>.
\<close>

definition pushResult :: "ResultWithLength \<Rightarrow> jsstring \<Rightarrow> lookupState \<Rightarrow> lookupState" where
  "pushResult r key st =
     st\<lparr>resultsWithLength := resultsWithLength st @ [r],
        seen := insert key (seen st),
        maxOriginalTextLength := max (maxOriginalTextLength st) (originalTextLength r)\<rparr>"

definition addReading :: "jsstring \<Rightarrow> nat \<Rightarrow> jsstring \<Rightarrow> DictionaryEntry \<Rightarrow>
    lookupState \<Rightarrow> lookupState" where
  "addReading text len dictName e st =
     (let key = recordKey dictName e in
      if key \<notin> seen st
      then pushResult
             \<lparr>entry = e\<lparr>dictionary := Some dictName\<rparr>, originalTextLength = len,
              fromDeinflection = False,
              readingExactMatch = (reading e \<noteq> [] \<and> length (reading e) = len \<and>
                                   take len text = reading e)\<rparr> key st
      else st)"

definition readingsOfDictionary :: "jsstring \<Rightarrow> nat \<Rightarrow> jsstring \<Rightarrow> jsstring \<Rightarrow>
    lookupState \<Rightarrow> lookupState" where
  "readingsOfDictionary text len kanjiTerm dictName st =
     (case findAllReadingsForTerm dictName kanjiTerm (env st) of
        (allReadings, w1) \<Rightarrow> fold (addReading text len dictName) allReadings (st\<lparr>env := w1\<rparr>))"

definition searchAllReadingsForTerm :: "jsstring \<Rightarrow> jsstring list \<Rightarrow> jsstring \<Rightarrow> nat \<Rightarrow>
    lookupState \<Rightarrow> lookupState" where
  "searchAllReadingsForTerm text dictNames kanjiTerm len st =
     (if kanjiTerm \<in> kanjiTermsSearched st then st
      else fold (readingsOfDictionary text len kanjiTerm) dictNames
             (st\<lparr>kanjiTermsSearched := insert kanjiTerm (kanjiTermsSearched st)\<rparr>))"

text \<open>The exact pass: what is done with one entry of one search result.\<close>

definition exactEntry :: "jsstring \<Rightarrow> bool \<Rightarrow> jsstring list \<Rightarrow> nat \<Rightarrow> jsstring \<Rightarrow> jsstring \<Rightarrow>
    jsstring \<Rightarrow> jsstring \<Rightarrow> DictionaryEntry \<Rightarrow> lookupState \<Rightarrow> lookupState" where
  "exactEntry text hasKanji dictNames len searchText searchTextHiragana dictName variant e st =
     (if containsKanji (term' e) then
        (let termMatches = (term' e = variant);
             readingMatches = (reading e \<noteq> [] \<and> (reading e = variant \<or> prefix variant (reading e)))
         in if termMatches \<or> readingMatches then
              (let key = recordKey dictName e in
               if key \<notin> seen st then
                 (let readingExact = (reading e \<noteq> [] \<and>
                          (reading e = searchText \<or> reading e = searchTextHiragana));
                      termExactMatch = (term' e = searchText \<or> term' e = searchTextHiragana);
                      isExactMatch = (termExactMatch \<or> readingExact);
                      st1 = (pushResult
                               \<lparr>entry = e\<lparr>dictionary := Some dictName\<rparr>, originalTextLength = len,
                                fromDeinflection = False, readingExactMatch = isExactMatch\<rparr> key st)
                             \<lparr>foundAtThisLength := True\<rparr>
                  in if hasKanji then searchAllReadingsForTerm text dictNames (term' e) len st1
                     else st1)
               else st)
            else st)
      else
        (if term' e = variant \<or> (prefix variant (term' e) \<and> length (term' e) \<ge> length variant) then
           (let key = recordKey dictName e in
            if key \<notin> seen st then
              (let readingExact = (reading e \<noteq> [] \<and>
                       (reading e = searchText \<or> reading e = searchTextHiragana));
                   termExactMatch = (term' e = searchText \<or> term' e = searchTextHiragana);
                   isExactMatch = (termExactMatch \<or> readingExact)
               in (pushResult
                     \<lparr>entry = e\<lparr>dictionary := Some dictName\<rparr>, originalTextLength = len,
                      fromDeinflection = False, readingExactMatch = isExactMatch\<rparr> key st)
                  \<lparr>foundAtThisLength := True\<rparr>)
            else st)
         else st))"

fun exactSearches :: "(jsstring \<times> jsstring) list \<Rightarrow> world \<Rightarrow>
    (jsstring \<times> DictionaryEntry list \<times> jsstring) list \<times> world" where
  "exactSearches [] w = ([], w)"
| "exactSearches ((dictName, variant) # qs) w =
     (case searchInDictionary dictName variant Exact w of
        (entries, w1) \<Rightarrow>
          (case exactSearches qs w1 of
             (rest, w2) \<Rightarrow> ((dictName, entries, variant) # rest, w2)))"

definition exactPass :: "jsstring \<Rightarrow> bool \<Rightarrow> jsstring list \<Rightarrow> nat \<Rightarrow> jsstring \<Rightarrow> jsstring \<Rightarrow>
    jsstring list \<Rightarrow> lookupState \<Rightarrow> lookupState" where
  "exactPass text hasKanji dictNames len searchText searchTextHiragana searchVariants st =
     (case exactSearches
             (concat (map (\<lambda>variant. map (\<lambda>dictName. (dictName, variant)) dictNames) searchVariants))
             (env st) of
        (exactResults, w1) \<Rightarrow>
          fold (\<lambda>res. fold (exactEntry text hasKanji dictNames len searchText searchTextHiragana
                              (fst res) (snd (snd res))) (fst (snd res)))
               exactResults (st\<lparr>env := w1\<rparr>))"

definition shouldSkipDeinflections :: "nat \<Rightarrow> lookupState \<Rightarrow> bool" where
  "shouldSkipDeinflections len st =
     (len \<ge> 4 \<and> foundAtThisLength st \<and>
      length (filter (\<lambda>r. originalTextLength r = len \<and> readingExactMatch r \<and> \<not> fromDeinflection r)
                (resultsWithLength st)) > 0)"

text \<open>The deinflection pass: one entry, one candidate, all candidates.\<close>

definition deinflectEntry :: "jsstring \<Rightarrow> bool \<Rightarrow> jsstring list \<Rightarrow> nat \<Rightarrow> jsstring \<Rightarrow> jsstring \<Rightarrow>
    DictionaryEntry \<Rightarrow> lookupState \<Rightarrow> lookupState" where
  "deinflectEntry text hasKanji dictNames len deinflected dictName e st =
     (let termMatches = (term' e = deinflected);
          readingMatches = (reading e \<noteq> [] \<and> reading e = deinflected)
      in if \<not> termMatches \<and> \<not> readingMatches then st
         else
           (let key = recordKey dictName e in
            if key \<notin> seen st then
              (let st1 = (pushResult
                            \<lparr>entry = e\<lparr>dictionary := Some dictName\<rparr>, originalTextLength = len,
                             fromDeinflection = True, readingExactMatch = readingMatches\<rparr> key st)
                          \<lparr>foundAtThisLength := True\<rparr>
               in if hasKanji \<and> containsKanji (term' e) \<and>
                     (term' e = deinflected \<or> reading e = deinflected)
                  then searchAllReadingsForTerm text dictNames (term' e) len st1
                  else st1)
            else st))"

fun dictSearches :: "jsstring list \<Rightarrow> jsstring \<Rightarrow> world \<Rightarrow>
    (jsstring \<times> DictionaryEntry list) list \<times> world" where
  "dictSearches [] deinflected w = ([], w)"
| "dictSearches (dictName # ds) deinflected w =
     (case searchInDictionary dictName deinflected Exact w of
        (entries, w1) \<Rightarrow>
          (case dictSearches ds deinflected w1 of
             (rest, w2) \<Rightarrow> ((dictName, entries) # rest, w2)))"

definition deinflectCandidate :: "jsstring \<Rightarrow> bool \<Rightarrow> jsstring list \<Rightarrow> nat \<Rightarrow> jsstring list \<Rightarrow>
    jsstring \<Rightarrow> lookupState \<Rightarrow> lookupState" where
  "deinflectCandidate text hasKanji dictNames len searchVariants deinflected st =
     (if deinflected \<in> set searchVariants then st
      else
        (case dictSearches dictNames deinflected (env st) of
           (deinflectResults, w1) \<Rightarrow>
             fold (\<lambda>res. fold (deinflectEntry text hasKanji dictNames len deinflected (fst res))
                           (snd res))
                  deinflectResults (st\<lparr>env := w1\<rparr>)))"

definition deinflectionPass :: "(jsstring \<Rightarrow> jsstring list option) \<Rightarrow> jsstring \<Rightarrow> bool \<Rightarrow>
    jsstring list \<Rightarrow> nat \<Rightarrow> jsstring list \<Rightarrow> lookupState \<Rightarrow> lookupState" where
  "deinflectionPass transform text hasKanji dictNames len searchVariants st =
     (let allDeinflections =
            fold (\<lambda>variant. fold setAdd (getDeinflectionCandidates transform variant))
                 searchVariants []
      in fold (deinflectCandidate text hasKanji dictNames len searchVariants) allDeinflections st)"

text \<open>
  One round of the substring loop, up to the test for early termination: the variants of the
  prefix, the exact pass over them (\<open>exactStage\<close>), the skip test and the deinflection pass.
\<close>

definition searchVariantsOf :: "jsstring \<Rightarrow> nat \<Rightarrow> jsstring list" where
  "searchVariantsOf text len =
     (let searchText = take len text;
          searchTextHiragana = convertKatakanaToHiragana searchText
      in if searchText \<noteq> searchTextHiragana then [searchText, searchTextHiragana]
         else [searchText])"

definition exactStage :: "jsstring \<Rightarrow> bool \<Rightarrow> jsstring list \<Rightarrow> nat \<Rightarrow> lookupState \<Rightarrow> lookupState" where
  "exactStage text hasKanji dictNames len st =
     (let searchText = take len text;
          searchTextHiragana = convertKatakanaToHiragana searchText
      in exactPass text hasKanji dictNames len searchText searchTextHiragana
           (searchVariantsOf text len) (st\<lparr>foundAtThisLength := False\<rparr>))"

definition substringIteration :: "(jsstring \<Rightarrow> jsstring list option) \<Rightarrow> jsstring \<Rightarrow> bool \<Rightarrow>
    jsstring list \<Rightarrow> nat \<Rightarrow> lookupState \<Rightarrow> lookupState" where
  "substringIteration transform text hasKanji dictNames len st =
     (let st1 = exactStage text hasKanji dictNames len st
      in if shouldSkipDeinflections len st1 then st1
         else deinflectionPass transform text hasKanji dictNames len
                (searchVariantsOf text len) st1)"

fun substringLoop :: "(jsstring \<Rightarrow> jsstring list option) \<Rightarrow> jsstring \<Rightarrow> bool \<Rightarrow>
    jsstring list \<Rightarrow> nat \<Rightarrow> lookupState \<Rightarrow> lookupState" where
  "substringLoop transform text hasKanji dictNames 0 st = st"
| "substringLoop transform text hasKanji dictNames (Suc n) st =
     (let st1 = substringIteration transform text hasKanji dictNames (Suc n) st
      in if Suc n \<le> 2 \<and> maxOriginalTextLength st1 \<ge> 3 then st1
         else substringLoop transform text hasKanji dictNames n st1)"

text \<open>Filtering and ranking.\<close>

definition lengthDescending :: "nat \<Rightarrow> nat \<Rightarrow> int" where
  "lengthDescending a b = int b - int a"

definition keptResults :: "ResultWithLength list \<Rightarrow> DictionaryEntry list" where
  "keptResults rwl =
     (let exactReadingMatches = filter readingExactMatch rwl in
      if length exactReadingMatches > 0 then
        (let allExactMatchLengths =
               jsSort lengthDescending (fold setAdd (map originalTextLength exactReadingMatches) [])
         in concat (map (\<lambda>len.
                      (let matchesAtLength = filter (\<lambda>r. originalTextLength r = len) rwl
                       in map entry (filter readingExactMatch matchesAtLength) @
                          map entry (filter (\<lambda>r. \<not> readingExactMatch r) matchesAtLength)))
                    allExactMatchLengths))
      else
        (let sortedLengths = jsSort lengthDescending (fold setAdd (map originalTextLength rwl) []);
             meaningfulLengths =
               filter (\<lambda>len. \<not> (len = 1 \<and> length sortedLengths > 1 \<and> hd sortedLengths > 1))
                 sortedLengths
         in concat (map (\<lambda>len. map entry (filter (\<lambda>r. originalTextLength r = len) rwl))
                    meaningfulLengths)))"

definition resultInfo :: "ResultWithLength list \<Rightarrow> DictionaryEntry \<Rightarrow> ResultWithLength" where
  "resultInfo rwl e =
     (case find (\<lambda>r. term' (entry r) = term' e \<and> reading (entry r) = reading e) rwl of
        Some r \<Rightarrow> \<lparr>entry = e, originalTextLength = originalTextLength r,
                   fromDeinflection = fromDeinflection r, readingExactMatch = readingExactMatch r\<rparr>
      | None \<Rightarrow> \<lparr>entry = e, originalTextLength = 0, fromDeinflection = False,
                 readingExactMatch = False\<rparr>)"

definition compareResults :: "jsstring \<Rightarrow> ResultWithLength \<Rightarrow> ResultWithLength \<Rightarrow> int" where
  "compareResults text a b =
     (if readingExactMatch a \<and> \<not> readingExactMatch b then - 1
      else if \<not> readingExactMatch a \<and> readingExactMatch b then 1
      else if originalTextLength a \<noteq> originalTextLength b
        then int (originalTextLength b) - int (originalTextLength a)
      else
        (let aHasReading = (reading (entry a) \<noteq> [] \<and> reading (entry a) \<noteq> term' (entry a));
             bHasReading = (reading (entry b) \<noteq> [] \<and> reading (entry b) \<noteq> term' (entry b))
         in if aHasReading \<and> \<not> bHasReading then - 1
            else if \<not> aHasReading \<and> bHasReading then 1
            else if fromDeinflection a \<and> \<not> fromDeinflection b then - 1
            else if \<not> fromDeinflection a \<and> fromDeinflection b then 1
            else if reading (entry a) \<noteq> [] \<and> reading (entry b) \<noteq> [] \<and>
                    reading (entry a) = reading (entry b) \<and>
                    length (term' (entry a)) \<noteq> length (term' (entry b))
              then int (length (term' (entry a))) - int (length (term' (entry b)))
            else
              (let searchSubstring = take (originalTextLength a) text;
                   aReadingExact = (reading (entry a) \<noteq> [] \<and> reading (entry a) = searchSubstring);
                   bReadingExact = (reading (entry b) \<noteq> [] \<and> reading (entry b) = searchSubstring)
               in if aReadingExact \<and> \<not> bReadingExact then - 1
                  else if \<not> aReadingExact \<and> bReadingExact then 1
                  else score (entry b) - score (entry a))))"

definition filterAndRank :: "jsstring \<Rightarrow> ResultWithLength list \<Rightarrow> DictionaryEntry list" where
  "filterAndRank text rwl =
     map entry (jsSort (compareResults text) (map (resultInfo rwl) (keptResults rwl)))"

text \<open>The fallback over the partial-reading search.\<close>

definition fallbackEntry :: "jsstring \<Rightarrow> bool \<Rightarrow> jsstring list \<Rightarrow> jsstring \<Rightarrow> DictionaryEntry \<Rightarrow>
    lookupState \<Rightarrow> lookupState" where
  "fallbackEntry text hasKanji dictNames dictName e st =
     (let key = recordKey dictName e in
      if key \<notin> seen st then
        (let readingMatches = (reading e \<noteq> [] \<and>
                (reading e = text \<or> prefix text (reading e) \<or> prefix (reading e) text))
         in if readingMatches then
              (let st1 = st\<lparr>results := results st @ [e\<lparr>dictionary := Some dictName\<rparr>],
                            seen := insert key (seen st)\<rparr>
               in if hasKanji \<and> containsKanji (term' e) \<and> readingMatches
                  then searchAllReadingsForTerm text dictNames (term' e) (length text) st1
                  else st1)
            else st)
      else st)"

definition fallbackDictionary :: "jsstring \<Rightarrow> bool \<Rightarrow> jsstring list \<Rightarrow> jsstring \<Rightarrow>
    lookupState \<Rightarrow> lookupState" where
  "fallbackDictionary text hasKanji dictNames dictName st =
     (case searchByPartialReading dictName text 2 (env st) of
        (partialMatches, w1) \<Rightarrow>
          fold (fallbackEntry text hasKanji dictNames dictName) partialMatches (st\<lparr>env := w1\<rparr>))"

definition entryScoreDescending :: "DictionaryEntry \<Rightarrow> DictionaryEntry \<Rightarrow> int" where
  "entryScoreDescending a b = score b - score a"

text \<open>The local variables of \<open>lookupTerm\<close> as they are declared, before the loop.\<close>

definition initialState :: "world \<Rightarrow> lookupState" where
  "initialState w =
     \<lparr>results = [], seen = {}, kanjiTermsSearched = {}, resultsWithLength = [],
      maxOriginalTextLength = 0, foundAtThisLength = False, env = w\<rparr>"

text \<open>
  The stage of \<open>lookupTerm\<close> between the cache check and the fallback: the index, the
  prefetch of the first character's buckets, the substring loop, and the filtered and
  ranked list when any match was recorded.
\<close>

definition mainStage :: "(jsstring \<Rightarrow> jsstring list option) \<Rightarrow> jsstring \<Rightarrow> world \<Rightarrow> lookupState" where
  "mainStage transform text w =
     (let index = getDictionaryIndex w;
          hasKanji = containsKanji text;
          dictNames = map fst index;
          w1 = fold (\<lambda>dictName w0. snd (getDataStoreData dictName (charAt0 text) w0)) dictNames w;
          st1 = substringLoop transform text hasKanji dictNames (length text) (initialState w1)
      in if length (resultsWithLength st1) > 0
         then st1\<lparr>results := filterAndRank text (resultsWithLength st1)\<rparr>
         else st1)"

text \<open>The cache check: the cached list when a record is present and younger than the TTL.\<close>

definition cachedResults :: "world \<Rightarrow> jsstring \<Rightarrow> DictionaryEntry list option" where
  "cachedResults w cacheKey =
     (case map_of (searchCache w) cacheKey of
        Some (rs, timestamp) \<Rightarrow> if now w - timestamp < CACHE_TTL then Some rs else None
      | None \<Rightarrow> None)"

definition lookupTerm :: "(jsstring \<Rightarrow> jsstring list option) \<Rightarrow> jsstring \<Rightarrow> world \<Rightarrow>
    DictionaryEntry list \<times> world" where
  "lookupTerm transform text w =
     (case cachedResults w text of
        Some rs \<Rightarrow> (rs, w)
      | None \<Rightarrow>
           (let st2 = mainStage transform text w;
                dictNames = map fst (getDictionaryIndex w)
            in if length (resultsWithLength st2) > 0 \<and> length (results st2) > 0
               then (results st2, env st2)
               else
                 (let st3 = (if length (results st2) = 0 \<and> length text \<ge> 2
                             then fold (fallbackDictionary text (containsKanji text) dictNames)
                                    dictNames st2
                             else st2);
                      ranked = jsSort entryScoreDescending (results st3);
                      w3 = env st3;
                      c1 = (if length (searchCache w3) \<ge> MAX_CACHE_SIZE then tl (searchCache w3)
                            else searchCache w3);
                      c2 = AList.update text (ranked, now w3) c1
                  in (ranked, w3\<lparr>searchCache := c2\<rparr>))))"

section \<open>Import and maintenance\<close>

text \<open>
  One parsed row of a term bank, \<open>[term, reading, definitionTags, ruleIdentifiers, score,
  definitions, sequence, termTags]\<close>, with the positions the code reads. An absent or
  empty reading is the empty string; \<open>definitions\<close> is an array or a single value;
  \<open>termTags\<close> may be absent.
\<close>

record rawTerm =
  raw_term :: jsstring
  raw_reading :: jsstring
  raw_score :: int
  raw_definitions :: "jsstring list + jsstring"
  raw_termTags :: "jsstring list option"

definition toEntry :: "rawTerm \<Rightarrow> DictionaryEntry" where
  "toEntry r =
     \<lparr>term' = raw_term r,
      reading = (if raw_reading r \<noteq> [] then raw_reading r else raw_term r),
      definitions = (case raw_definitions r of Inl ds \<Rightarrow> ds | Inr d \<Rightarrow> [d]),
      tags = (case raw_termTags r of Some ts \<Rightarrow> ts | None \<Rightarrow> []),
      score = raw_score r,
      dictionary = None\<rparr>"

text \<open>
  A plain object used as a table is the list of its own properties in the order the language
  enumerates them (\<open>Object.keys\<close>, \<open>for ... in\<close>, the spread): first the keys that are array
  indices, the canonical decimal numerals up to \<open>2^32 - 2\<close>, in ascending numeric order,
  then the other keys in the order of their creation. Assigning to an own key keeps its
  place.
\<close>

definition indexValue :: "jsstring \<Rightarrow> int" where
  "indexValue s = fold (\<lambda>c n. 10 * n + (c - 48)) s 0"

definition isArrayIndex :: "jsstring \<Rightarrow> bool" where
  "isArrayIndex s =
     (s \<noteq> [] \<and> list_all (\<lambda>c. 48 \<le> c \<and> c \<le> 57) s \<and> (length s = 1 \<or> hd s \<noteq> 48) \<and>
      indexValue s \<le> 4294967294)"

fun insertIndexKey :: "jsstring \<Rightarrow> 'v \<Rightarrow> (jsstring \<times> 'v) list \<Rightarrow> (jsstring \<times> 'v) list" where
  "insertIndexKey k v [] = [(k, v)]"
| "insertIndexKey k v (p # ps) =
     (if isArrayIndex (fst p) \<and> indexValue (fst p) < indexValue k
      then p # insertIndexKey k v ps
      else (k, v) # p # ps)"

definition objectSet :: "jsstring \<Rightarrow> 'v \<Rightarrow> (jsstring \<times> 'v) list \<Rightarrow> (jsstring \<times> 'v) list" where
  "objectSet k v obj =
     (if k \<in> set (map fst obj) then AList.update k v obj
      else if isArrayIndex k then insertIndexKey k v obj
      else obj @ [(k, v)])"

text \<open>
  Reading a key that is not an own property of a plain object finds the members of
  \<open>Object.prototype\<close>: under these names the value read is a function or an object, which
  is truthy, is not an array and has no \<open>push\<close>.
\<close>

definition objectPrototypeKeys :: "jsstring list" where
  "objectPrototypeKeys =
     [js ''constructor'', js ''__defineGetter__'', js ''__defineSetter__'',
      js ''hasOwnProperty'', js ''__lookupGetter__'', js ''__lookupSetter__'',
      js ''isPrototypeOf'', js ''propertyIsEnumerable'', js ''toString'', js ''valueOf'',
      js ''__proto__'', js ''toLocaleString'']"

text \<open>
  \<open>grouped[firstChar][key].push(dictEntry)\<close>, creating the objects on the way. The first
  character is one code unit or \<open>undefined\<close>, never a member of \<open>Object.prototype\<close>. When
  \<open>key\<close> is such a member and not yet an own key, \<open>grouped[firstChar][key]\<close> reads the
  inherited value, no array is created, and the call of \<open>push\<close> throws a \<open>TypeError\<close>:
  the result is \<open>None\<close>.
\<close>

definition groupPush :: "jsstring \<Rightarrow> jsstring \<Rightarrow> DictionaryEntry \<Rightarrow> (jsstring \<times> bucket) list \<Rightarrow>
    (jsstring \<times> bucket) list option" where
  "groupPush firstChar key dictEntry grouped =
     (let b = (case map_of grouped firstChar of Some b0 \<Rightarrow> b0 | None \<Rightarrow> [])
      in case map_of b key of
           Some es \<Rightarrow> Some (objectSet firstChar (objectSet key (es @ [dictEntry]) b) grouped)
         | None \<Rightarrow>
             if key \<in> set objectPrototypeKeys then None
             else Some (objectSet firstChar (objectSet key [dictEntry] b) grouped))"

definition groupTerm :: "rawTerm \<Rightarrow> (jsstring \<times> bucket) list \<Rightarrow> (jsstring \<times> bucket) list option" where
  "groupTerm r grouped =
     (let dictEntry = toEntry r in
      case groupPush (charAt0 (raw_term r)) (raw_term r) dictEntry grouped of
        None \<Rightarrow> None
      | Some g1 \<Rightarrow>
          if raw_reading r \<noteq> [] \<and> raw_reading r \<noteq> raw_term r
          then groupPush (charAt0 (raw_reading r)) (raw_reading r) dictEntry g1
          else Some g1)"

text \<open>The grouping loop over the term bank; \<open>None\<close> when a row throws.\<close>

fun groupTerms :: "rawTerm list \<Rightarrow> (jsstring \<times> bucket) list \<Rightarrow> (jsstring \<times> bucket) list option" where
  "groupTerms [] grouped = Some grouped"
| "groupTerms (r # rs) grouped =
     (case groupTerm r grouped of None \<Rightarrow> None | Some g1 \<Rightarrow> groupTerms rs g1)"

text \<open>
  The merge of one index key of a group into the bucket read from the store. The keys of a
  group are own keys created by \<open>groupPush\<close>, none of them a member of
  \<open>Object.prototype\<close>: \<open>merged[term]\<close> reads an own key of the stored bucket, or nothing.
\<close>

definition addUnseen :: "DictionaryEntry \<Rightarrow> DictionaryEntry list \<times> jsstring set \<Rightarrow>
    DictionaryEntry list \<times> jsstring set" where
  "addUnseen e acc =
     (if entryKey e \<notin> snd acc then (fst acc @ [e], insert (entryKey e) (snd acc)) else acc)"

definition mergeTerm :: "jsstring \<times> DictionaryEntry list \<Rightarrow> bucket \<Rightarrow> bucket" where
  "mergeTerm kv merged =
     (case map_of merged (fst kv) of
        Some existingEntries \<Rightarrow>
          objectSet (fst kv)
            (fst (fold addUnseen (snd kv) (fold addUnseen existingEntries ([], {})))) merged
      | None \<Rightarrow> objectSet (fst kv) (snd kv) merged)"

definition storeGroup :: "jsstring \<Rightarrow> jsstring \<times> bucket \<Rightarrow> datastore \<Rightarrow> datastore" where
  "storeGroup dictionaryName g s =
     (let key = DICTIONARY_KEY @ js ''_'' @ dictionaryName @ js ''_'' @ fst g;
          existing = (case readBucket key s of Some b \<Rightarrow> b | None \<Rightarrow> []);
          merged = fold mergeTerm (snd g) existing
      in ds_set key (StoredBucket merged) s)"

text \<open>
  \<open>processTermBank\<close>: the grouping loop, then the store loop over \<open>Object.keys(grouped)\<close>.
  The grouping loop writes nothing, so a throw there leaves the store as it was: the result
  is \<open>None\<close>.
\<close>

definition processTermBank :: "jsstring \<Rightarrow> rawTerm list \<Rightarrow> world \<Rightarrow> world option" where
  "processTermBank dictionaryName termBank w =
     (case groupTerms termBank [] of
        None \<Rightarrow> None
      | Some grouped \<Rightarrow> Some (w\<lparr>store := fold (storeGroup dictionaryName) grouped (store w)\<rparr>))"

text \<open>
  \<open>importDictionaryJSON\<close> on the parsed JSON: \<open>None\<close> stands for a value that is not an
  array. The result is the \<open>success\<close> flag. The test \<open>!index[dictionaryName]\<close> reads an
  inherited member as well as an own key, so a dictionary named like a member of
  \<open>Object.prototype\<close> is never registered. A throw in \<open>processTermBank\<close> is caught and
  gives \<open>success: false\<close>, after the index has been written.
\<close>

definition importDictionaryJSON :: "rawTerm list option \<Rightarrow> jsstring \<Rightarrow> world \<Rightarrow> bool \<times> world" where
  "importDictionaryJSON termBank dictionaryName w =
     (case termBank of
        None \<Rightarrow> (False, w)
      | Some bank \<Rightarrow>
          (let index = getDictionaryIndex w;
               w1 = (if dictionaryName \<notin> set (map fst index) \<and>
                        dictionaryName \<notin> set objectPrototypeKeys
                     then w\<lparr>store := ds_set DICTIONARY_INDEX_KEY
                            (StoredIndex (objectSet dictionaryName
                               \<lparr>title = dictionaryName, revision = js ''imported'', sequenced = False\<rparr>
                               index)) (store w)\<rparr>
                     else w)
           in case processTermBank dictionaryName bank w1 of
                None \<Rightarrow> (False, w1)
              | Some w2 \<Rightarrow> (True, w2)))"

definition deleteDictionary :: "jsstring \<Rightarrow> world \<Rightarrow> world" where
  "deleteDictionary dictionaryName w =
     (let index = AList.delete dictionaryName (getDictionaryIndex w);
          s1 = ds_set DICTIONARY_INDEX_KEY (StoredIndex index) (store w);
          pfx = DICTIONARY_KEY @ js ''_'' @ dictionaryName @ js ''_'';
          allKeys = ds_keys s1;
          keysToDelete = filter (prefix pfx) allKeys
      in w\<lparr>store := (if length keysToDelete > 0 then ds_delMany keysToDelete s1 else s1)\<rparr>)"

definition getInstalledDictionaries :: "world \<Rightarrow> jsstring list" where
  "getInstalledDictionaries w = map fst (getDictionaryIndex w)"

text \<open>\<open>indexOf\<close> of a one-character string: the first position of the code unit, if any.\<close>

definition indexOf :: "jsstring \<Rightarrow> int \<Rightarrow> nat option" where
  "indexOf s c = (if c \<in> set s then Some (length (takeWhile (\<lambda>x. x \<noteq> c) s)) else None)"

definition findOrphanedDictionaryKeys :: "world \<Rightarrow> jsstring list" where
  "findOrphanedDictionaryKeys w =
     (let installedDictNames = set (map fst (getDictionaryIndex w));
          allKeys = ds_keys (store w);
          pfx = DICTIONARY_KEY @ js ''_'';
          dictKeys = filter (prefix pfx) allKeys
      in filter (\<lambda>key.
           (let afterPrefix = drop (length pfx) key in
            case indexOf afterPrefix 95 of
              None \<Rightarrow> False
            | Some underscoreIndex \<Rightarrow> take underscoreIndex afterPrefix \<notin> installedDictNames))
         dictKeys)"

definition cleanupOrphanedDictionaryKeys :: "world \<Rightarrow> nat \<times> world" where
  "cleanupOrphanedDictionaryKeys w =
     (let orphaned = findOrphanedDictionaryKeys w
      in (length orphaned,
          if length orphaned > 0 then w\<lparr>store := ds_delMany orphaned (store w)\<rparr> else w))"

section \<open>Steps of the lookup state and their invariants\<close>

text \<open>
  Every change that the loops of \<open>lookupTerm\<close> make to the lookup state is one of five
  kinds of step. \<open>lookupStep len\<close> relates a state to the state after one step, where
  a recorded match has the length \<open>len\<close> and its key has not been seen, and where the
  module state changes in the bucket cache only (\<open>frame\<close>).
\<close>

definition frame :: "world \<Rightarrow> world \<Rightarrow> bool" where
  "frame w w' = (store w' = store w \<and> searchCache w' = searchCache w \<and> now w' = now w)"

inductive lookupStep :: "nat \<Rightarrow> lookupState \<Rightarrow> lookupState \<Rightarrow> bool" for len :: nat where
  stepPush: "recordKey d e \<notin> seen st \<Longrightarrow> originalTextLength r = len \<Longrightarrow>
     entry r = e\<lparr>dictionary := Some d\<rparr> \<Longrightarrow> lookupStep len st (pushResult r (recordKey d e) st)"
| stepResult: "recordKey d e \<notin> seen st \<Longrightarrow>
     lookupStep len st (st\<lparr>results := results st @ [e\<lparr>dictionary := Some d\<rparr>],
                             seen := insert (recordKey d e) (seen st)\<rparr>)"
| stepEnv: "frame (env st) w \<Longrightarrow> lookupStep len st (st\<lparr>env := w\<rparr>)"
| stepKanji: "lookupStep len st (st\<lparr>kanjiTermsSearched := K\<rparr>)"
| stepFound: "lookupStep len st (st\<lparr>foundAtThisLength := b\<rparr>)"

abbreviation lookupSteps :: "nat \<Rightarrow> lookupState \<Rightarrow> lookupState \<Rightarrow> bool" where
  "lookupSteps len \<equiv> (lookupStep len)\<^sup>*\<^sup>*"

text \<open>The triple that identifies an entry of a result list.\<close>

definition tripleOf :: "DictionaryEntry \<Rightarrow> jsstring option \<times> jsstring \<times> jsstring" where
  "tripleOf e = (dictionary e, term' e, reading e)"

text \<open>
  An entry is keyed by a set of keys when it carries a dictionary name and its key is in the
  set. \<open>seenInv\<close>: every recorded match and every result is keyed by \<open>seen\<close>, and no two
  of them share a triple. \<open>appended\<close>: the recorded matches grew at the end, by matches of
  one length, and \<open>maxOriginalTextLength\<close> followed.
\<close>

definition keyedBy :: "jsstring set \<Rightarrow> DictionaryEntry \<Rightarrow> bool" where
  "keyedBy S e = (\<exists>d. dictionary e = Some d \<and> recordKey d e \<in> S)"

definition seenInv :: "lookupState \<Rightarrow> bool" where
  "seenInv st = ((\<forall>r \<in> set (resultsWithLength st). keyedBy (seen st) (entry r)) \<and>
     distinct (map (\<lambda>r. tripleOf (entry r)) (resultsWithLength st)) \<and>
     (\<forall>e \<in> set (results st). keyedBy (seen st) e) \<and>
     distinct (map tripleOf (results st)))"

definition appended :: "nat \<Rightarrow> lookupState \<Rightarrow> lookupState \<Rightarrow> bool" where
  "appended len st st' = (\<exists>new. resultsWithLength st' = resultsWithLength st @ new \<and>
      (\<forall>r \<in> set new. originalTextLength r = len) \<and>
      maxOriginalTextLength st' = (if new = [] then maxOriginalTextLength st
                                   else max (maxOriginalTextLength st) len))"

text \<open>
  \<open>foundIfGrown\<close>: the flag \<open>foundAtThisLength\<close> is set once the recorded matches differ
  from a given list. \<open>loopInv n\<close>: what holds when the substring loop is about to run the
  length \<open>n\<close>.
\<close>

definition foundIfGrown :: "ResultWithLength list \<Rightarrow> lookupState \<Rightarrow> bool" where
  "foundIfGrown rwl0 st = (resultsWithLength st = rwl0 \<or> foundAtThisLength st)"

definition loopInv :: "nat \<Rightarrow> lookupState \<Rightarrow> bool" where
  "loopInv n st = ((\<forall>r \<in> set (resultsWithLength st).
        n < originalTextLength r \<and> originalTextLength r \<le> maxOriginalTextLength st) \<and>
     (n \<le> 1 \<longrightarrow> maxOriginalTextLength st < 3))"

text \<open>
  \<open>accepted\<close>: what the fallback tests before it takes an entry, on the strings as they
  are, and what follows for the strings converted to hiragana. \<open>hasReading\<close>,
  \<open>sharedReading\<close> and \<open>readingIs\<close> name the tests of the comparator of the ranking;
  \<open>keptRecords\<close> is the kept list of \<open>keptResults\<close> before the entries are taken out of
  the recorded matches.
\<close>

definition accepted :: "jsstring \<Rightarrow> jsstring list \<Rightarrow> DictionaryEntry \<Rightarrow> bool" where
  "accepted text ds e =
     ((\<exists>d \<in> set ds. dictionary e = Some d) \<and>
      reading e \<noteq> [] \<and>
      (reading e = text \<or> prefix text (reading e) \<or> prefix (reading e) text) \<and>
      (convertKatakanaToHiragana (reading e) = convertKatakanaToHiragana text \<or>
       prefix (convertKatakanaToHiragana text) (convertKatakanaToHiragana (reading e)) \<or>
       prefix (convertKatakanaToHiragana (reading e)) (convertKatakanaToHiragana text)))"

definition hasReading :: "ResultWithLength \<Rightarrow> bool" where
  "hasReading r = (reading (entry r) \<noteq> [] \<and> reading (entry r) \<noteq> term' (entry r))"

definition sharedReading :: "ResultWithLength \<Rightarrow> ResultWithLength \<Rightarrow> bool" where
  "sharedReading a b = (reading (entry a) \<noteq> [] \<and> reading (entry b) \<noteq> [] \<and>
      reading (entry a) = reading (entry b) \<and>
      length (term' (entry a)) \<noteq> length (term' (entry b)))"

definition readingIs :: "jsstring \<Rightarrow> ResultWithLength \<Rightarrow> bool" where
  "readingIs s r = (reading (entry r) \<noteq> [] \<and> reading (entry r) = s)"

definition keptRecords :: "ResultWithLength list \<Rightarrow> ResultWithLength list" where
  "keptRecords rwl =
     (let exactReadingMatches = filter readingExactMatch rwl in
      if length exactReadingMatches > 0 then
        (let allExactMatchLengths =
               jsSort lengthDescending (fold setAdd (map originalTextLength exactReadingMatches) [])
         in concat (map (\<lambda>len.
                      (let matchesAtLength = filter (\<lambda>r. originalTextLength r = len) rwl
                       in filter readingExactMatch matchesAtLength @
                          filter (\<lambda>r. \<not> readingExactMatch r) matchesAtLength))
                    allExactMatchLengths))
      else
        (let sortedLengths = jsSort lengthDescending (fold setAdd (map originalTextLength rwl) []);
             meaningfulLengths =
               filter (\<lambda>len. \<not> (len = 1 \<and> length sortedLengths > 1 \<and> hd sortedLengths > 1))
                 sortedLengths
         in concat (map (\<lambda>len. filter (\<lambda>r. originalTextLength r = len) rwl)
                    meaningfulLengths)))"

















section \<open>Example states\<close>

definition w_miss :: world where
  "w_miss = \<lparr>store = [(js ''Yomicord_Dictionaries_D_a'', StoredBucket [([97], [])])],
     searchCache = [], dataStoreCache = [], now = 7\<rparr>"

definition w_one :: world where
  "w_one = \<lparr>store = [(js ''Yomicord_Dictionary_Index'',
                StoredIndex [(js ''D'', \<lparr>title = js ''D'', revision = js ''imported'', sequenced = False\<rparr>)]),
              (js ''Yomicord_Dictionaries_D_a'', StoredBucket [])],
     searchCache = [], dataStoreCache = [], now = 0\<rparr>"

definition w_orphan :: world where
  "w_orphan = w_one\<lparr>store := store w_one @ [(js ''Yomicord_Dictionaries_X_a'', StoredBucket [])]\<rparr>"

definition w_empty :: world where
  "w_empty = \<lparr>store = [], searchCache = [], dataStoreCache = [], now = 0\<rparr>"

definition rawRow :: "jsstring \<Rightarrow> jsstring \<Rightarrow> int \<Rightarrow> rawTerm" where
  "rawRow t r s = \<lparr>raw_term = t, raw_reading = r, raw_score = s, raw_definitions = Inl [],
                   raw_termTags = None\<rparr>"

definition noTransform :: "jsstring \<Rightarrow> jsstring list option" where
  "noTransform t = Some []"

definition w_abc :: world where
  "w_abc = snd (importDictionaryJSON
      (Some [rawRow (js ''abc'') [] 0, rawRow (js ''ab'') [] 0]) (js ''D'') w_empty)"

definition w_abc_cached :: world where
  "w_abc_cached = snd (lookupTerm noTransform (js ''zz'') w_abc)"

definition w_abcd :: world where
  "w_abcd = snd (importDictionaryJSON
      (Some [rawRow (js ''abcd'') [] 0, rawRow (js ''ab'') [] 0]) (js ''D'') w_empty)"

definition st_abcd2 :: lookupState where
  "st_abcd2 = substringIteration noTransform (js ''abcd'') False [js ''D''] 3
                (substringIteration noTransform (js ''abcd'') False [js ''D''] 4 (initialState w_abcd))"

definition w_abcde :: world where
  "w_abcde = snd (importDictionaryJSON
      (Some [rawRow (js ''abcde'') [] 0, rawRow (js ''abcd'') [] 0]) (js ''D'') w_empty)"

definition st_abcde5 :: lookupState where
  "st_abcde5 = substringIteration noTransform (js ''abcde'') False [js ''D''] 5 (initialState w_abcde)"

definition w_cycle :: world where
  "w_cycle = snd (importDictionaryJSON
      (Some [rawRow [0x30A4, 0x30A8] [0x3044] 5,
             rawRow [0x5BB6, 0x6301] [0x3044, 0x3048] 10,
             rawRow [0x5BB6] [0x3044, 0x3048] 0]) (js ''D'') w_empty)"

definition entryOf :: "jsstring \<Rightarrow> jsstring \<Rightarrow> int \<Rightarrow> DictionaryEntry" where
  "entryOf t r s = \<lparr>term' = t, reading = r, definitions = [], tags = [], score = s,
                    dictionary = Some (js ''D'')\<rparr>"

definition exactAt :: "nat \<Rightarrow> DictionaryEntry \<Rightarrow> ResultWithLength" where
  "exactAt len e = \<lparr>entry = e, originalTextLength = len, fromDeinflection = False,
                    readingExactMatch = True\<rparr>"

text \<open>
  The three matches recorded for the query in \<^term>\<open>w_cycle\<close>, and the ranking predicate: a
  list is ranked when no element compares greater than a later one.
\<close>

definition cycleIe :: ResultWithLength where
  "cycleIe = exactAt 2 (entryOf [0x30A4, 0x30A8] [0x3044] 5)"

definition cycleIemochi :: ResultWithLength where
  "cycleIemochi = exactAt 2 (entryOf [0x5BB6, 0x6301] [0x3044, 0x3048] 10)"

definition cycleKa :: ResultWithLength where
  "cycleKa = exactAt 2 (entryOf [0x5BB6] [0x3044, 0x3048] 0)"

definition isRanked :: "jsstring \<Rightarrow> ResultWithLength list \<Rightarrow> bool" where
  "isRanked q rs = sorted_wrt (\<lambda>a b. compareResults q a b \<le> 0) rs"





section \<open>The bucket cache: properties\<close>

lemma map_of_tl_update_new:
  assumes "map_of c k = None" "c \<noteq> []"
  shows "map_of (tl (AList.update k v c)) k = Some v"
proof -
  from assms obtain p ps where c: "c = p # ps" by (cases c) auto
  with assms(1) have "fst p \<noteq> k" "map_of ps k = None" by (auto split: if_splits)
  then show ?thesis using c by (simp add: update_conv')
qed

lemma length_update_le: "length (AList.update k v c) \<le> Suc (length c)"
  by (induction c) auto

lemma length_update_present: "map_of c k = Some x \<Longrightarrow> length (AList.update k v c) = length c"
  by (induction c) (auto split: if_splits)

text \<open>
  C7. A get of the bucket cache returns the cached value when a record for the key is
  present and younger than 10 seconds. Otherwise it reads the bucket from the store,
  puts it under the key with the current timestamp and, when the cache then holds more
  than 50 records, removes exactly the record at the front of the key insertion order;
  the store, the result cache and the clock are untouched. A cache of at most 50 records
  holds at most 50 records after the get.
\<close>

theorem getDataStoreData_cache:
  assumes "length (dataStoreCache w) \<le> 50"
  shows "(\<forall>d ts. map_of (dataStoreCache w) (dictionaryName @ js ''_'' @ firstChar) = Some (d, ts) \<and>
            now w - ts < 10000 \<longrightarrow> getDataStoreData dictionaryName firstChar w = (d, w)) \<and>
         (\<not> (\<exists>d ts. map_of (dataStoreCache w) (dictionaryName @ js ''_'' @ firstChar) = Some (d, ts) \<and>
            now w - ts < 10000) \<longrightarrow>
            (let r = getDataStoreData dictionaryName firstChar w;
                 data = readBucket (js ''Yomicord_Dictionaries_'' @ dictionaryName @ js ''_'' @ firstChar) (store w);
                 c1 = AList.update (dictionaryName @ js ''_'' @ firstChar) (data, now w) (dataStoreCache w)
             in fst r = data \<and>
                dataStoreCache (snd r) = (if length c1 > 50 then tl c1 else c1) \<and>
                map_of (dataStoreCache (snd r)) (dictionaryName @ js ''_'' @ firstChar) = Some (data, now w) \<and>
                store (snd r) = store w \<and> searchCache (snd r) = searchCache w \<and> now (snd r) = now w)) \<and>
         length (dataStoreCache (snd (getDataStoreData dictionaryName firstChar w))) \<le> 50"
proof -
  let ?k = "dictionaryName @ js ''_'' @ firstChar"
  let ?data = "readBucket (js ''Yomicord_Dictionaries_'' @ dictionaryName @ js ''_'' @ firstChar) (store w)"
  let ?c1 = "AList.update ?k (?data, now w) (dataStoreCache w)"
  have key: "DICTIONARY_KEY @ js ''_'' @ dictionaryName @ js ''_'' @ firstChar =
     js ''Yomicord_Dictionaries_'' @ dictionaryName @ js ''_'' @ firstChar"
    by (simp add: DICTIONARY_KEY_def js_def)
  have hit: "getDataStoreData dictionaryName firstChar w = (d, w)"
    if "map_of (dataStoreCache w) ?k = Some (d, ts)" "now w - ts < 10000" for d ts
    using that by (simp add: getDataStoreData_def DATASTORE_CACHE_TTL_def)
  have miss: "getDataStoreData dictionaryName firstChar w =
      (?data, w\<lparr>dataStoreCache := (if length ?c1 > 50 then tl ?c1 else ?c1)\<rparr>)"
    if "\<not> (\<exists>d ts. map_of (dataStoreCache w) ?k = Some (d, ts) \<and> now w - ts < 10000)"
    using that unfolding getDataStoreData_def Let_def key
    by (auto simp: DATASTORE_CACHE_TTL_def split: option.splits)
  have inserted: "map_of (if length ?c1 > 50 then tl ?c1 else ?c1) ?k = Some (?data, now w)"
  proof (cases "length ?c1 > 50")
    case False
    then show ?thesis by (simp add: update_conv')
  next
    case True
    have "map_of (dataStoreCache w) ?k = None"
    proof (rule ccontr)
      assume "map_of (dataStoreCache w) ?k \<noteq> None"
      then obtain x where "map_of (dataStoreCache w) ?k = Some x" by auto
      then have "length ?c1 = length (dataStoreCache w)" by (rule length_update_present)
      with True assms show False by simp
    qed
    moreover have "dataStoreCache w \<noteq> []" using True by auto
    ultimately show ?thesis using True by (simp add: map_of_tl_update_new)
  qed
  have bound: "length (if length ?c1 > 50 then tl ?c1 else ?c1) \<le> 50"
    using length_update_le[of ?k "(?data, now w)" "dataStoreCache w"] assms by auto
  have len: "length (dataStoreCache (snd (getDataStoreData dictionaryName firstChar w))) \<le> 50"
  proof (cases "\<exists>d ts. map_of (dataStoreCache w) ?k = Some (d, ts) \<and> now w - ts < 10000")
    case True
    then show ?thesis using hit assms by auto
  next
    case False
    then show ?thesis using miss bound by simp
  qed
  show ?thesis
    using hit miss inserted len by (simp add: Let_def)
qed

theorem getDataStoreData_cache_witness:
  "length (dataStoreCache w_miss) \<le> 50 \<and>
   getDataStoreData (js ''D'') (js ''a'') w_miss =
      (Some [([97], [])], w_miss\<lparr>dataStoreCache := [(js ''D_a'', (Some [([97], [])], 7))]\<rparr>) \<and>
   getDataStoreData (js ''D'') (js ''a'') (w_miss\<lparr>dataStoreCache := [(js ''D_a'', (None, 5))]\<rparr>) =
      (None, w_miss\<lparr>dataStoreCache := [(js ''D_a'', (None, 5))]\<rparr>)"
proof -
  have h: "length (dataStoreCache w_miss) \<le> 50" by (simp add: w_miss_def)
  have h2: "length (dataStoreCache (w_miss\<lparr>dataStoreCache := [(js ''D_a'', (None, 5))]\<rparr>)) \<le> 50" by simp
  have m: "\<not> (\<exists>d ts. map_of (dataStoreCache w_miss) (js ''D'' @ js ''_'' @ js ''a'') = Some (d, ts) \<and> now w_miss - ts < 10000)"
    by (simp add: w_miss_def)
  have hitp: "map_of (dataStoreCache (w_miss\<lparr>dataStoreCache := [(js ''D_a'', (None, 5))]\<rparr>)) (js ''D'' @ js ''_'' @ js ''a'') = Some (None, 5) \<and>
      now (w_miss\<lparr>dataStoreCache := [(js ''D_a'', (None, 5))]\<rparr>) - 5 < 10000"
    by (simp add: w_miss_def js_def)
  from getDataStoreData_cache[OF h, of "js ''D''" "js ''a''"] m
  have a: "fst (getDataStoreData (js ''D'') (js ''a'') w_miss) = Some [([97], [])]"
    by (simp add: Let_def readBucket_def ds_get_def w_miss_def js_def)
  from getDataStoreData_cache[OF h2, of "js ''D''" "js ''a''"] hitp
  have b: "getDataStoreData (js ''D'') (js ''a'') (w_miss\<lparr>dataStoreCache := [(js ''D_a'', (None, 5))]\<rparr>) =
      (None, w_miss\<lparr>dataStoreCache := [(js ''D_a'', (None, 5))]\<rparr>)"
    by blast
  have c: "getDataStoreData (js ''D'') (js ''a'') w_miss =
      (Some [([97], [])], w_miss\<lparr>dataStoreCache := [(js ''D_a'', (Some [([97], [])], 7))]\<rparr>)"
    by (simp add: getDataStoreData_def Let_def readBucket_def ds_get_def w_miss_def js_def DICTIONARY_KEY_def DATASTORE_CACHE_TTL_def)
  show ?thesis using h a b c by simp
qed

section \<open>Deletion and orphaned keys: properties\<close>

lemma index_key_no_data_prefix: "\<not> prefix (DICTIONARY_KEY @ js ''_'' @ x) DICTIONARY_INDEX_KEY"
  by (simp add: DICTIONARY_KEY_def DICTIONARY_INDEX_KEY_def js_def)

lemma map_of_filter_not_prefix:
  "map_of (filter (\<lambda>kv. \<not> prefix p (fst kv)) xs) k = (if \<not> prefix p k then map_of xs k else None)"
  by (induction xs) auto

lemma map_fst_update:
  "map fst (AList.update k v xs) = (if k \<in> fst ` set xs then map fst xs else map fst xs @ [k])"
  by (induction xs) auto

lemma delMany_prefix:
  "(if length (filter Q (ds_keys s)) > 0 then ds_delMany (filter Q (ds_keys s)) s else s) =
     filter (\<lambda>kv. \<not> Q (fst kv)) s"
proof -
  have a: "ds_delMany (filter Q (ds_keys s)) s = filter (\<lambda>kv. \<not> Q (fst kv)) s"
    unfolding ds_delMany_def ds_keys_def by (rule filter_cong) auto
  have b: "filter Q (ds_keys s) = [] \<Longrightarrow> filter (\<lambda>kv. \<not> Q (fst kv)) s = s"
    unfolding ds_keys_def by (induction s) (auto split: if_splits)
  show ?thesis using a b by auto
qed

lemma store_deleteDictionary:
  "store (deleteDictionary D w) =
     filter (\<lambda>kv. \<not> prefix (DICTIONARY_KEY @ js ''_'' @ D @ js ''_'') (fst kv))
       (ds_set DICTIONARY_INDEX_KEY (StoredIndex (AList.delete D (getDictionaryIndex w))) (store w))"
  unfolding deleteDictionary_def Let_def delMany_prefix by simp

lemma index_deleteDictionary:
  "getDictionaryIndex (deleteDictionary D w) = AList.delete D (getDictionaryIndex w)"
proof -
  have "ds_get DICTIONARY_INDEX_KEY (store (deleteDictionary D w)) =
      Some (StoredIndex (AList.delete D (getDictionaryIndex w)))"
    unfolding store_deleteDictionary ds_get_def ds_set_def map_of_filter_not_prefix
    using index_key_no_data_prefix[of "D @ js ''_''"] by (simp add: update_conv')
  then show ?thesis by (simp add: getDictionaryIndex_def[of "deleteDictionary D w"])
qed

lemma dict_keys_deleteDictionary:
  "filter (prefix (DICTIONARY_KEY @ js ''_'')) (ds_keys (store (deleteDictionary D w))) =
   filter (\<lambda>key. \<not> prefix (DICTIONARY_KEY @ js ''_'' @ D @ js ''_'') key)
     (filter (prefix (DICTIONARY_KEY @ js ''_'')) (ds_keys (store w)))"
proof -
  let ?p = "DICTIONARY_KEY @ js ''_''"
  let ?pD = "DICTIONARY_KEY @ js ''_'' @ D @ js ''_''"
  let ?s1 = "ds_set DICTIONARY_INDEX_KEY (StoredIndex (AList.delete D (getDictionaryIndex w))) (store w)"
  have np: "\<not> prefix ?p DICTIONARY_INDEX_KEY"
    using index_key_no_data_prefix[of "[]"] by simp
  have a: "filter (prefix ?p) (ds_keys ?s1) = filter (prefix ?p) (ds_keys (store w))"
    unfolding ds_keys_def ds_set_def using np by (simp add: map_fst_update)
  have b: "ds_keys (filter (\<lambda>kv. \<not> prefix ?pD (fst kv)) s) = filter (\<lambda>key. \<not> prefix ?pD key) (ds_keys s)" for s :: datastore
    unfolding ds_keys_def by (induction s) auto
  have "filter (prefix ?p) (ds_keys (store (deleteDictionary D w))) =
        filter (\<lambda>key. \<not> prefix ?pD key) (filter (prefix ?p) (ds_keys ?s1))"
    unfolding store_deleteDictionary b filter_filter by (rule filter_cong) auto
  then show ?thesis unfolding a .
qed

lemma name_is_D_prefix:
  assumes "prefix (DICTIONARY_KEY @ js ''_'') key"
    and "indexOf (drop (length (DICTIONARY_KEY @ js ''_'')) key) 95 = Some i"
    and "take i (drop (length (DICTIONARY_KEY @ js ''_'')) key) = D"
  shows "prefix (DICTIONARY_KEY @ js ''_'' @ D @ js ''_'') key"
proof -
  define a where "a = drop (length (DICTIONARY_KEY @ js ''_'')) key"
  from assms(1) obtain zs where "key = (DICTIONARY_KEY @ js ''_'') @ zs" by (auto simp: prefix_def)
  then have k: "key = (DICTIONARY_KEY @ js ''_'') @ a" unfolding a_def by simp
  from assms(2) have mem: "95 \<in> set a" and i: "i = length (takeWhile (\<lambda>x. x \<noteq> 95) a)"
    by (auto simp: indexOf_def a_def split: if_splits)
  have split: "a = takeWhile (\<lambda>x. x \<noteq> 95) a @ dropWhile (\<lambda>x. x \<noteq> 95) a" by simp
  have tw: "take i a = takeWhile (\<lambda>x. x \<noteq> 95) a"
    unfolding i using split by (metis append_eq_conv_conj)
  from mem have ne: "dropWhile (\<lambda>x. x \<noteq> 95) a \<noteq> []" by simp
  then obtain y ys where dw: "dropWhile (\<lambda>x. x \<noteq> 95) a = y # ys"
    by (cases "dropWhile (\<lambda>x. x \<noteq> 95) a") auto
  have "\<not> (hd (dropWhile (\<lambda>x. x \<noteq> 95) a) \<noteq> 95)" using ne by (rule hd_dropWhile)
  then have "y = 95" using dw by simp
  then have "a = D @ [95] @ ys"
    using dw tw assms(3) split unfolding a_def[symmetric] by simp
  then have "key = (DICTIONARY_KEY @ js ''_'' @ D @ js ''_'') @ ys"
    using k by (simp add: js_def)
  then show ?thesis unfolding prefix_def by blast
qed

lemma orphan_flag_after:
  assumes "prefix (DICTIONARY_KEY @ js ''_'') key"
    and "\<not> prefix (DICTIONARY_KEY @ js ''_'' @ D @ js ''_'') key"
  shows "(case indexOf (drop (length (DICTIONARY_KEY @ js ''_'')) key) 95 of None \<Rightarrow> False
          | Some i \<Rightarrow> take i (drop (length (DICTIONARY_KEY @ js ''_'')) key) \<notin> N - {D}) =
         (case indexOf (drop (length (DICTIONARY_KEY @ js ''_'')) key) 95 of None \<Rightarrow> False
          | Some i \<Rightarrow> take i (drop (length (DICTIONARY_KEY @ js ''_'')) key) \<notin> N)"
proof (cases "indexOf (drop (length (DICTIONARY_KEY @ js ''_'')) key) 95")
  case None
  then show ?thesis by simp
next
  case (Some i)
  have "take i (drop (length (DICTIONARY_KEY @ js ''_'')) key) \<noteq> D"
    using name_is_D_prefix[OF assms(1) Some] assms(2) by blast
  then show ?thesis using Some by simp
qed

text \<open>
  C9. After \<open>deleteDictionary(D)\<close> no key with the prefix
  \<open>Yomicord_Dictionaries_<D>_\<close> remains in the store and \<open>D\<close> is no longer
  installed. \<open>findOrphanedDictionaryKeys\<close> then returns exactly the keys it returned before
  the deletion that lie outside that prefix; in particular it returns the empty list when it
  did so before.
\<close>

theorem deleteDictionary_orphans:
  "(\<forall>key \<in> set (ds_keys (store (deleteDictionary D w))).
      \<not> prefix (js ''Yomicord_Dictionaries_'' @ D @ js ''_'') key) \<and>
   D \<notin> set (getInstalledDictionaries (deleteDictionary D w)) \<and>
   findOrphanedDictionaryKeys (deleteDictionary D w) =
     filter (\<lambda>key. \<not> prefix (js ''Yomicord_Dictionaries_'' @ D @ js ''_'') key)
       (findOrphanedDictionaryKeys w) \<and>
   (findOrphanedDictionaryKeys w = [] \<longrightarrow> findOrphanedDictionaryKeys (deleteDictionary D w) = [])"
proof -
  let ?pD = "DICTIONARY_KEY @ js ''_'' @ D @ js ''_''"
  let ?p = "DICTIONARY_KEY @ js ''_''"
  have pD: "js ''Yomicord_Dictionaries_'' @ D @ js ''_'' = ?pD"
    by (simp add: DICTIONARY_KEY_def js_def)
  have keys: "\<forall>key \<in> set (ds_keys (store (deleteDictionary D w))). \<not> prefix ?pD key"
    unfolding store_deleteDictionary ds_keys_def by auto
  have inst: "D \<notin> set (getInstalledDictionaries (deleteDictionary D w))"
    unfolding getInstalledDictionaries_def index_deleteDictionary by (simp add: delete_keys)
  have names: "set (map fst (AList.delete D (getDictionaryIndex w))) =
      set (map fst (getDictionaryIndex w)) - {D}"
    by (simp add: delete_keys)
  define F where "F N key = (case indexOf (drop (length ?p) key) 95 of None \<Rightarrow> False
          | Some i \<Rightarrow> take i (drop (length ?p) key) \<notin> N)" for N key
  have o1: "findOrphanedDictionaryKeys v =
      filter (F (set (map fst (getDictionaryIndex v)))) (filter (prefix ?p) (ds_keys (store v)))" for v
    unfolding findOrphanedDictionaryKeys_def Let_def F_def ..
  have o2: "filter (F (N - {D})) (filter (\<lambda>key. \<not> prefix ?pD key) (filter (prefix ?p) ks)) =
      filter (\<lambda>key. \<not> prefix ?pD key) (filter (F N) (filter (prefix ?p) ks))" for N ks
    unfolding filter_filter
    by (rule filter_cong[OF refl]) (use orphan_flag_after[of _ D] in \<open>auto simp: F_def\<close>)
  have orph: "findOrphanedDictionaryKeys (deleteDictionary D w) =
     filter (\<lambda>key. \<not> prefix ?pD key) (findOrphanedDictionaryKeys w)"
    unfolding o1 index_deleteDictionary dict_keys_deleteDictionary names o2 ..
  show ?thesis using keys inst orph unfolding pD by simp
qed

lemma index_w_one: "getDictionaryIndex w_one = [(js ''D'', \<lparr>title = js ''D'', revision = js ''imported'', sequenced = False\<rparr>)]"
  by (simp add: w_one_def getDictionaryIndex_def ds_get_def DICTIONARY_INDEX_KEY_def)

lemma keys_w_one: "ds_keys (store w_one) = [js ''Yomicord_Dictionary_Index'', js ''Yomicord_Dictionaries_D_a'']"
  by (simp add: w_one_def ds_keys_def)

lemma orphans_w_one: "findOrphanedDictionaryKeys w_one = []"
  unfolding findOrphanedDictionaryKeys_def Let_def index_w_one keys_w_one
  by (simp add: DICTIONARY_KEY_def js_def indexOf_def)

lemma index_w_orphan: "getDictionaryIndex w_orphan = [(js ''D'', \<lparr>title = js ''D'', revision = js ''imported'', sequenced = False\<rparr>)]"
  by (simp add: w_orphan_def w_one_def getDictionaryIndex_def ds_get_def DICTIONARY_INDEX_KEY_def)

lemma keys_w_orphan: "ds_keys (store w_orphan) = [js ''Yomicord_Dictionary_Index'', js ''Yomicord_Dictionaries_D_a'',
     js ''Yomicord_Dictionaries_X_a'']"
  by (simp add: w_orphan_def w_one_def ds_keys_def)

lemma orphans_w_orphan: "findOrphanedDictionaryKeys w_orphan = [js ''Yomicord_Dictionaries_X_a'']"
  unfolding findOrphanedDictionaryKeys_def Let_def index_w_orphan keys_w_orphan
  by (simp add: DICTIONARY_KEY_def js_def indexOf_def)

theorem deleteDictionary_orphans_witness:
  "findOrphanedDictionaryKeys w_one = [] \<and>
   findOrphanedDictionaryKeys (deleteDictionary (js ''D'') w_one) = [] \<and>
   js ''D'' \<notin> set (getInstalledDictionaries (deleteDictionary (js ''D'') w_one))"
  using deleteDictionary_orphans[of "js ''D''" w_one] orphans_w_one by simp

theorem deleteDictionary_orphans_counterexample:
  "js ''D'' \<in> set (getInstalledDictionaries w_orphan) \<and>
   findOrphanedDictionaryKeys (deleteDictionary (js ''D'') w_orphan) = [js ''Yomicord_Dictionaries_X_a'']"
proof -
  have a: "js ''D'' \<in> set (getInstalledDictionaries w_orphan)"
    by (simp add: getInstalledDictionaries_def index_w_orphan)
  have b: "getDictionaryIndex (deleteDictionary (js ''D'') w_orphan) = []"
    by (simp add: index_deleteDictionary index_w_orphan)
  have c: "filter (prefix (DICTIONARY_KEY @ js ''_'')) (ds_keys (store (deleteDictionary (js ''D'') w_orphan))) =
      [js ''Yomicord_Dictionaries_X_a'']"
    unfolding dict_keys_deleteDictionary keys_w_orphan by (simp add: DICTIONARY_KEY_def js_def)
  have d: "findOrphanedDictionaryKeys (deleteDictionary (js ''D'') w_orphan) = [js ''Yomicord_Dictionaries_X_a'']"
    unfolding findOrphanedDictionaryKeys_def Let_def b c
    by (simp add: DICTIONARY_KEY_def js_def indexOf_def)
  show ?thesis using a d by simp
qed

section \<open>The lookup state: steps and invariants, proved\<close>

lemma fold_steps:
  assumes "\<And>x s. R\<^sup>*\<^sup>* s (f x s)"
  shows "R\<^sup>*\<^sup>* st (fold f xs st)"
proof (induction xs arbitrary: st)
  case Nil
  show ?case by simp
next
  case (Cons x xs)
  have "R\<^sup>*\<^sup>* st (f x st)" by (rule assms)
  moreover have "R\<^sup>*\<^sup>* (f x st) (fold f xs (f x st))" by (rule Cons.IH)
  ultimately show ?case by simp
qed

lemma frame_refl: "frame w w"
  by (simp add: frame_def)

lemma frame_trans: "frame w w1 \<Longrightarrow> frame w1 w2 \<Longrightarrow> frame w w2"
  by (simp add: frame_def)

lemma frame_getDataStoreData: "frame w (snd (getDataStoreData d c w))"
  by (simp add: getDataStoreData_def Let_def frame_def)

lemma frame_searchInDictionary: "frame w (snd (searchInDictionary d t m w))"
proof -
  obtain data w1 where g: "getDataStoreData d (charAt0 t) w = (data, w1)" by fastforce
  then have "frame w w1" using frame_getDataStoreData[of w d "charAt0 t"] by simp
  then show ?thesis
    unfolding searchInDictionary_def g
    by (auto simp: frame_refl split: matchType.splits option.splits)
qed

lemma frame_findAllReadingsForTerm: "frame w (snd (findAllReadingsForTerm d t w))"
proof -
  obtain es w1 where s: "searchInDictionary d t Exact w = (es, w1)" by fastforce
  have "frame w w1" using frame_searchInDictionary[of w d t Exact] s by simp
  then show ?thesis by (simp add: findAllReadingsForTerm_def s)
qed

lemma frame_exactSearches: "frame w (snd (exactSearches qs w))"
proof (induction qs arbitrary: w)
  case Nil
  show ?case by (simp add: frame_refl)
next
  case (Cons q qs)
  obtain d v where q: "q = (d, v)" by fastforce
  obtain es w1 where s: "searchInDictionary d v Exact w = (es, w1)" by fastforce
  have a: "frame w w1" using frame_searchInDictionary[of w d v Exact] s by simp
  obtain rest w2 where r: "exactSearches qs w1 = (rest, w2)" by fastforce
  have b: "frame w1 w2" using Cons.IH[of w1] r by simp
  show ?case using frame_trans[OF a b] by (simp add: q s r)
qed

lemma frame_dictSearches: "frame w (snd (dictSearches ds dx w))"
proof (induction ds arbitrary: w)
  case Nil
  show ?case by (simp add: frame_refl)
next
  case (Cons d ds)
  obtain es w1 where s: "searchInDictionary d dx Exact w = (es, w1)" by fastforce
  have a: "frame w w1" using frame_searchInDictionary[of w d dx Exact] s by simp
  obtain rest w2 where r: "dictSearches ds dx w1 = (rest, w2)" by fastforce
  have b: "frame w1 w2" using Cons.IH[of w1] r by simp
  show ?case using frame_trans[OF a b] by (simp add: s r)
qed

lemma frame_partialStep: "frame (snd st) (snd (partialStep d sr m p st))"
proof -
  obtain data w1 where g: "getDataStoreData d (charAt0 (take p sr)) (snd st) = (data, w1)"
    by fastforce
  have "frame (snd st) w1" using frame_getDataStoreData[of "snd st" d "charAt0 (take p sr)"] g by simp
  then show ?thesis by (cases data) (simp_all add: partialStep_def Let_def g)
qed

lemma frame_fold_partialStep: "frame (snd st) (snd (fold (partialStep d sr m) ps st))"
proof (induction ps arbitrary: st)
  case Nil
  show ?case by (simp add: frame_refl)
next
  case (Cons p ps)
  show ?case using frame_trans[OF frame_partialStep Cons.IH] by simp
qed

lemma frame_searchByPartialReading: "frame w (snd (searchByPartialReading d t m w))"
proof -
  define sr where "sr = convertKatakanaToHiragana t"
  obtain rs sn w1 where f: "fold (partialStep d sr m) (rev [m ..< Suc (length sr)]) (([], {}), w) =
      ((rs, sn), w1)" by (metis surj_pair)
  have "frame w w1"
    using frame_fold_partialStep[of "(([], {}), w)" d sr m "rev [m ..< Suc (length sr)]"]
    unfolding f by simp
  then show ?thesis
    unfolding searchByPartialReading_def Let_def sr_def[symmetric] f by (simp add: frame_refl)
qed

lemma steps_env: "frame (env st) w \<Longrightarrow> lookupSteps len st (st\<lparr>env := w\<rparr>)"
  by (rule r_into_rtranclp) (rule stepEnv)

lemma steps_push:
  assumes "recordKey d e \<notin> seen st"
  shows "lookupSteps len st
     (pushResult \<lparr>entry = e\<lparr>dictionary := Some d\<rparr>, originalTextLength = len,
                  fromDeinflection = b, readingExactMatch = x\<rparr> (recordKey d e) st)"
  by (rule r_into_rtranclp) (rule stepPush[OF assms], simp_all)

lemma steps_push_found:
  assumes "recordKey d e \<notin> seen st"
  shows "lookupSteps len st
     ((pushResult \<lparr>entry = e\<lparr>dictionary := Some d\<rparr>, originalTextLength = len,
                  fromDeinflection = b, readingExactMatch = x\<rparr> (recordKey d e) st)
        \<lparr>foundAtThisLength := True\<rparr>)"
  by (rule rtranclp.rtrancl_into_rtrancl[OF steps_push[OF assms]]) (rule stepFound)

lemma steps_addReading: "lookupSteps len st (addReading text len d e st)"
  unfolding addReading_def Let_def by (simp add: steps_push)

lemma steps_readingsOfDictionary: "lookupSteps len st (readingsOfDictionary text len k d st)"
proof -
  obtain rs w1 where f: "findAllReadingsForTerm d k (env st) = (rs, w1)" by fastforce
  have "lookupSteps len (st\<lparr>env := w1\<rparr>) (fold (addReading text len d) rs (st\<lparr>env := w1\<rparr>))"
    by (rule fold_steps) (rule steps_addReading)
  then show ?thesis
    unfolding readingsOfDictionary_def f
    using steps_env[of st w1 len] frame_findAllReadingsForTerm[of "env st" d k]
    unfolding f by simp
qed

lemma steps_searchAllReadingsForTerm:
  "lookupSteps len st (searchAllReadingsForTerm text ds k len st)"
proof (cases "k \<in> kanjiTermsSearched st")
  case True
  then show ?thesis by (simp add: searchAllReadingsForTerm_def)
next
  case False
  let ?st1 = "st\<lparr>kanjiTermsSearched := insert k (kanjiTermsSearched st)\<rparr>"
  have a: "lookupSteps len st ?st1" by (rule r_into_rtranclp) (rule stepKanji)
  have b: "lookupSteps len ?st1 (fold (readingsOfDictionary text len k) ds ?st1)"
    by (rule fold_steps) (rule steps_readingsOfDictionary)
  show ?thesis using False a b by (simp add: searchAllReadingsForTerm_def)
qed

lemma steps_exactEntry:
  "lookupSteps len st (exactEntry text hk ds len stx sth d v e st)"
proof -
  have p: "lookupSteps len st (searchAllReadingsForTerm text ds k len
       ((pushResult \<lparr>entry = e\<lparr>dictionary := Some d\<rparr>, originalTextLength = len,
                  fromDeinflection = b, readingExactMatch = x\<rparr> (recordKey d e) st)
        \<lparr>foundAtThisLength := True\<rparr>))" if "recordKey d e \<notin> seen st" for k b x
    using steps_push_found[OF that] steps_searchAllReadingsForTerm by (rule rtranclp_trans)
  show ?thesis
    unfolding exactEntry_def Let_def
    by (simp add: steps_push_found p)
qed

lemma steps_exactPass:
  "lookupSteps len st (exactPass text hk ds len stx sth vs st)"
proof -
  obtain rs w1 where f: "exactSearches
             (concat (map (\<lambda>variant. map (\<lambda>dictName. (dictName, variant)) ds) vs))
             (env st) = (rs, w1)" by fastforce
  have "lookupSteps len (st\<lparr>env := w1\<rparr>)
     (fold (\<lambda>res. fold (exactEntry text hk ds len stx sth (fst res) (snd (snd res))) (fst (snd res)))
        rs (st\<lparr>env := w1\<rparr>))"
    by (rule fold_steps) (rule fold_steps, rule steps_exactEntry)
  then show ?thesis
    unfolding exactPass_def f
    using steps_env[of st w1 len] frame_exactSearches[of "env st"
        "concat (map (\<lambda>variant. map (\<lambda>dictName. (dictName, variant)) ds) vs)"]
    unfolding f by simp
qed

lemma steps_deinflectEntry:
  "lookupSteps len st (deinflectEntry text hk ds len dx d e st)"
proof -
  have p: "lookupSteps len st (searchAllReadingsForTerm text ds k len
       ((pushResult \<lparr>entry = e\<lparr>dictionary := Some d\<rparr>, originalTextLength = len,
                  fromDeinflection = b, readingExactMatch = x\<rparr> (recordKey d e) st)
        \<lparr>foundAtThisLength := True\<rparr>))" if "recordKey d e \<notin> seen st" for k b x
    using steps_push_found[OF that] steps_searchAllReadingsForTerm by (rule rtranclp_trans)
  show ?thesis
    unfolding deinflectEntry_def Let_def
    by (simp add: steps_push_found p)
qed

lemma steps_deinflectCandidate:
  "lookupSteps len st (deinflectCandidate text hk ds len vs dx st)"
proof (cases "dx \<in> set vs")
  case True
  then show ?thesis by (simp add: deinflectCandidate_def)
next
  case False
  obtain rs w1 where f: "dictSearches ds dx (env st) = (rs, w1)" by fastforce
  have "lookupSteps len (st\<lparr>env := w1\<rparr>)
     (fold (\<lambda>res. fold (deinflectEntry text hk ds len dx (fst res)) (snd res)) rs (st\<lparr>env := w1\<rparr>))"
    by (rule fold_steps) (rule fold_steps, rule steps_deinflectEntry)
  then show ?thesis
    unfolding deinflectCandidate_def f
    using False steps_env[of st w1 len] frame_dictSearches[of "env st" ds dx]
    unfolding f by simp
qed

lemma steps_deinflectionPass:
  "lookupSteps len st (deinflectionPass tr text hk ds len vs st)"
  unfolding deinflectionPass_def Let_def by (rule fold_steps) (rule steps_deinflectCandidate)

lemma steps_exactStage:
  "lookupSteps len st (exactStage text hk ds len st)"
proof -
  have a: "lookupSteps len st (st\<lparr>foundAtThisLength := False\<rparr>)"
    by (rule r_into_rtranclp) (rule stepFound)
  show ?thesis
    unfolding exactStage_def Let_def using a steps_exactPass by (rule rtranclp_trans)
qed

lemma steps_substringIteration:
  "lookupSteps len st (substringIteration tr text hk ds len st)"
proof -
  have c: "lookupSteps len st (deinflectionPass tr text hk ds len vs (exactStage text hk ds len st))"
    for vs
    using steps_exactStage steps_deinflectionPass by (rule rtranclp_trans)
  show ?thesis unfolding substringIteration_def Let_def using steps_exactStage c by simp
qed

lemma steps_fallbackEntry:
  "lookupSteps (length text) st (fallbackEntry text hk ds d e st)"
proof -
  have r: "lookupSteps (length text) st (st\<lparr>results := results st @ [e\<lparr>dictionary := Some d\<rparr>],
                             seen := insert (recordKey d e) (seen st)\<rparr>)" if "recordKey d e \<notin> seen st"
    by (rule r_into_rtranclp) (rule stepResult[OF that])
  have p: "lookupSteps (length text) st (searchAllReadingsForTerm text ds k (length text)
       (st\<lparr>results := results st @ [e\<lparr>dictionary := Some d\<rparr>],
                             seen := insert (recordKey d e) (seen st)\<rparr>))" if "recordKey d e \<notin> seen st" for k
    using r[OF that] steps_searchAllReadingsForTerm by (rule rtranclp_trans)
  show ?thesis
    unfolding fallbackEntry_def Let_def by (simp add: r p)
qed

lemma steps_fallbackDictionary:
  "lookupSteps (length text) st (fallbackDictionary text hk ds d st)"
proof -
  obtain rs w1 where f: "searchByPartialReading d text 2 (env st) = (rs, w1)" by fastforce
  have "lookupSteps (length text) (st\<lparr>env := w1\<rparr>)
     (fold (fallbackEntry text hk ds d) rs (st\<lparr>env := w1\<rparr>))"
    by (rule fold_steps) (rule steps_fallbackEntry)
  then show ?thesis
    unfolding fallbackDictionary_def f
    using steps_env[of st w1 "length text"] frame_searchByPartialReading[of "env st" d "text" 2]
    unfolding f by simp
qed

text \<open>Invariants along steps.\<close>

lemma keyedBy_mono: "keyedBy S e \<Longrightarrow> keyedBy (insert k S) e"
  by (auto simp: keyedBy_def)

lemma keyedBy_triple:
  assumes "keyedBy S e" "recordKey d e' \<notin> S"
  shows "tripleOf e \<noteq> tripleOf (e'\<lparr>dictionary := Some d\<rparr>)"
  using assms by (auto simp: keyedBy_def tripleOf_def recordKey_def)

lemma keyedBy_new: "keyedBy (insert (recordKey d e) S) (e\<lparr>dictionary := Some d\<rparr>)"
  by (simp add: keyedBy_def recordKey_def)

lemma seenInv_step:
  assumes "lookupStep len st st'" "seenInv st"
  shows "seenInv st'"
  using assms
proof (cases rule: lookupStep.cases)
  case (stepPush d e r)
  have ne: "tripleOf (entry x) \<noteq> tripleOf (e\<lparr>dictionary := Some d\<rparr>)"
    if "x \<in> set (resultsWithLength st)" for x
    using that assms(2) keyedBy_triple[OF _ stepPush(2)] by (auto simp: seenInv_def)
  have rw: "resultsWithLength st' = resultsWithLength st @ [r]" "seen st' = insert (recordKey d e) (seen st)"
    "results st' = results st"
    using stepPush(1) by (simp_all add: pushResult_def)
  have "tripleOf (e\<lparr>dictionary := Some d\<rparr>) \<notin> (\<lambda>r. tripleOf (entry r)) ` set (resultsWithLength st)"
    using ne by force
  then show ?thesis
    unfolding seenInv_def rw
    using assms(2) stepPush(4) keyedBy_new[of d e "seen st"]
    by (simp add: seenInv_def keyedBy_mono)
next
  case (stepResult d e)
  have ne: "tripleOf x \<noteq> tripleOf (e\<lparr>dictionary := Some d\<rparr>)" if "x \<in> set (results st)" for x
    using that assms(2) keyedBy_triple[OF _ stepResult(2)] by (auto simp: seenInv_def)
  have rw: "resultsWithLength st' = resultsWithLength st" "seen st' = insert (recordKey d e) (seen st)"
    "results st' = results st @ [e\<lparr>dictionary := Some d\<rparr>]"
    using stepResult(1) by simp_all
  have "tripleOf (e\<lparr>dictionary := Some d\<rparr>) \<notin> tripleOf ` set (results st)"
    using ne by force
  then show ?thesis
    unfolding seenInv_def rw
    using assms(2) keyedBy_new[of d e "seen st"]
    by (simp add: seenInv_def keyedBy_mono)
qed (use assms(2) in \<open>auto simp: seenInv_def\<close>)

lemma seenInv_steps:
  assumes "lookupSteps len st st'" "seenInv st"
  shows "seenInv st'"
  using assms by (induction rule: rtranclp_induct) (auto intro: seenInv_step)

text \<open>Records are only appended, at the length of the step.\<close>

lemma appended_step:
  assumes "lookupStep len st1 st'" "appended len st st1"
  shows "appended len st st'"
  using assms(1)
proof (cases rule: lookupStep.cases)
  case (stepPush d e r)
  from assms(2) obtain new where n: "resultsWithLength st1 = resultsWithLength st @ new"
     "\<forall>r \<in> set new. originalTextLength r = len"
     "maxOriginalTextLength st1 = (if new = [] then maxOriginalTextLength st
                                   else max (maxOriginalTextLength st) len)"
    unfolding appended_def by blast
  show ?thesis unfolding appended_def
    by (rule exI[of _ "new @ [r]"]) (use n stepPush in \<open>auto simp: pushResult_def\<close>)
qed (use assms(2) in \<open>auto simp: appended_def\<close>)

lemma appended_steps:
  assumes "lookupSteps len st st'"
  shows "appended len st st'"
  using assms
proof (induction rule: rtranclp_induct)
  case base
  show ?case unfolding appended_def by (rule exI[of _ "[]"]) simp
next
  case (step y z)
  then show ?case using appended_step by blast
qed

lemma frame_step: "lookupStep len st st' \<Longrightarrow> frame (env st) (env st')"
  by (cases rule: lookupStep.cases) (auto simp: frame_refl pushResult_def)

lemma frame_steps: "lookupSteps len st st' \<Longrightarrow> frame (env st) (env st')"
  by (induction rule: rtranclp_induct) (auto intro: frame_refl frame_trans dest: frame_step)

lemma results_step_loop: "lookupStep len st st' \<Longrightarrow> set (results st) \<subseteq> set (results st')"
  by (cases rule: lookupStep.cases) (auto simp: pushResult_def)

lemma mset_insertBy: "mset (insertBy cmp x ys) = add_mset x (mset ys)"
  by (induction ys) auto

lemma mset_jsSort: "mset (jsSort cmp xs) = mset xs"
  unfolding jsSort_def by (induction xs) (auto simp: mset_insertBy)

lemma set_jsSort: "set (jsSort cmp xs) = set xs"
  using mset_jsSort[of cmp xs] by (rule mset_eq_setD)

lemma distinct_jsSort: "distinct (jsSort cmp xs) = distinct xs"
  using mset_jsSort[of cmp xs] by (rule mset_eq_imp_distinct_iff)

lemma distinct_fold_setAdd: "distinct acc \<Longrightarrow> distinct (fold setAdd xs acc)"
  by (induction xs arbitrary: acc) (simp_all add: setAdd_def)

lemma set_fold_setAdd: "set (fold setAdd xs acc) = set xs \<union> set acc"
  by (induction xs arbitrary: acc) (auto simp: setAdd_def)

lemma distinct_map_sub:
  assumes "mset xs \<subseteq># mset ys" "distinct (map f ys)"
  shows "distinct (map f xs)"
proof -
  from assms(1) obtain Z where Z: "mset ys = mset xs + Z"
    using subset_mset.le_iff_add by blast
  obtain zs where zs: "Z = mset zs" using ex_mset[of Z] by auto
  have "mset (map f ys) = mset (map f (xs @ zs))"
    using Z zs by simp
  then have "distinct (map f ys) \<longleftrightarrow> distinct (map f (xs @ zs))"
    by (rule mset_eq_imp_distinct_iff)
  then show ?thesis using assms(2) by simp
qed

lemma mset_by_lengths:
  assumes "distinct ls"
    and "\<And>l. mset (g l) = image_mset entry (filter_mset (\<lambda>r. originalTextLength r = l) (mset rwl))"
  shows "mset (concat (map g ls)) =
     image_mset entry (filter_mset (\<lambda>r. originalTextLength r \<in> set ls) (mset rwl))"
  using assms(1)
proof (induction ls)
  case Nil
  show ?case by simp
next
  case (Cons l ls)
  have "filter_mset (\<lambda>r. originalTextLength r \<in> set (l # ls)) (mset rwl) =
        filter_mset (\<lambda>r. originalTextLength r = l) (mset rwl) +
        filter_mset (\<lambda>r. originalTextLength r \<in> set ls) (mset rwl)"
    using Cons.prems by (induction rwl) auto
  then show ?case using Cons assms(2) by simp
qed

lemma mset_split_filter:
  "mset (map f (filter P xs) @ map f (filter (\<lambda>x. \<not> P x) xs)) = mset (map f xs)"
  by (induction xs) auto

lemma mset_keptResults: "mset (keptResults rwl) \<subseteq># mset (map entry rwl)"
proof -
  have g1: "mset (map entry (filter readingExactMatch (filter (\<lambda>r. originalTextLength r = l) rwl)) @
              map entry (filter (\<lambda>r. \<not> readingExactMatch r) (filter (\<lambda>r. originalTextLength r = l) rwl))) =
        image_mset entry (filter_mset (\<lambda>r. originalTextLength r = l) (mset rwl))" for l
    using mset_split_filter[of entry readingExactMatch "filter (\<lambda>r. originalTextLength r = l) rwl"]
    by (simp only: mset_map mset_filter)
  have g2: "mset (map entry (filter (\<lambda>r. originalTextLength r = l) rwl)) =
        image_mset entry (filter_mset (\<lambda>r. originalTextLength r = l) (mset rwl))" for l
    by (induction rwl) auto
  have sub: "image_mset entry (filter_mset P (mset rwl)) \<subseteq># mset (map entry rwl)" for P
    by (simp add: image_mset_subseteq_mono)
  have d: "distinct (jsSort lengthDescending (fold setAdd xs []))" for xs
    by (simp add: distinct_jsSort distinct_fold_setAdd)
  show ?thesis
  proof (cases "length (filter readingExactMatch rwl) > 0")
    case True
    then show ?thesis
      unfolding keptResults_def Let_def
      using mset_by_lengths[OF d g1] sub by simp
  next
    case False
    have "distinct (filter P (jsSort lengthDescending (fold setAdd xs [])))" for P xs
      using d by simp
    then show ?thesis
      unfolding keptResults_def Let_def
      using False mset_by_lengths[OF _ g2] sub by simp
  qed
qed

lemma entry_resultInfo: "entry (resultInfo rwl e) = e"
  by (simp add: resultInfo_def split: option.splits)

lemma mset_filterAndRank: "mset (filterAndRank text rwl) = mset (keptResults rwl)"
proof -
  have "map entry (map (resultInfo rwl) xs) = xs" for xs
    by (induction xs) (auto simp: entry_resultInfo)
  then have m: "map entry (map (resultInfo rwl) (keptResults rwl)) = keptResults rwl" .
  have "mset (filterAndRank text rwl) = mset (map entry (map (resultInfo rwl) (keptResults rwl)))"
    unfolding filterAndRank_def by (simp only: mset_map mset_jsSort)
  then show ?thesis unfolding m .
qed

lemma distinct_filterAndRank:
  assumes "distinct (map (\<lambda>r. tripleOf (entry r)) rwl)"
  shows "distinct (map tripleOf (filterAndRank text rwl))"
proof -
  have "mset (filterAndRank text rwl) \<subseteq># mset (map entry rwl)"
    using mset_keptResults[of rwl] by (simp add: mset_filterAndRank)
  moreover have "distinct (map tripleOf (map entry rwl))" using assms by (simp add: comp_def)
  ultimately show ?thesis by (rule distinct_map_sub)
qed

lemma substringLoop_inv:
  assumes "seenInv st"
  shows "seenInv (substringLoop tr text hk ds n st) \<and>
         frame (env st) (env (substringLoop tr text hk ds n st))"
  using assms
proof (induction n arbitrary: st)
  case 0
  then show ?case by (simp add: frame_refl)
next
  case (Suc n)
  let ?st1 = "substringIteration tr text hk ds (Suc n) st"
  have s: "lookupSteps (Suc n) st ?st1" by (rule steps_substringIteration)
  have a: "seenInv ?st1" using s Suc.prems by (rule seenInv_steps)
  have b: "frame (env st) (env ?st1)" using s by (rule frame_steps)
  have c: "frame (env st) (env (substringLoop tr text hk ds n ?st1))"
    using b Suc.IH[OF a] frame_trans by blast
  show ?case
  proof (cases "Suc n \<le> 2 \<and> maxOriginalTextLength ?st1 \<ge> 3")
    case True
    then have "substringLoop tr text hk ds (Suc n) st = ?st1" by (simp add: Let_def)
    then show ?thesis using a b by simp
  next
    case False
    then have "substringLoop tr text hk ds (Suc n) st = substringLoop tr text hk ds n ?st1"
      by (auto simp: Let_def)
    then show ?thesis using c Suc.IH[OF a] by simp
  qed
qed

section \<open>No duplicates in the result\<close>

lemma set_update_subset: "set (AList.update k v al) \<subseteq> insert (k, v) (set al)"
  by (induction al) auto

lemma distinct_map_jsSort: "distinct (map f (jsSort cmp xs)) = distinct (map f xs)"
proof -
  have "mset (map f (jsSort cmp xs)) = mset (map f xs)" by (simp add: mset_jsSort)
  then show ?thesis by (rule mset_eq_imp_distinct_iff)
qed

lemma frame_prefetch:
  "frame w (fold (\<lambda>dictName w0. snd (getDataStoreData dictName c w0)) ds w)"
proof (induction ds arbitrary: w)
  case Nil
  show ?case by (simp add: frame_refl)
next
  case (Cons d ds)
  show ?case using frame_trans[OF frame_getDataStoreData Cons.IH] by simp
qed

lemma seenInv_initial: "seenInv (initialState w1)"
  by (simp add: seenInv_def initialState_def)

lemma seenInv_ranked:
  assumes "seenInv st"
  shows "seenInv (st\<lparr>results := filterAndRank text (resultsWithLength st)\<rparr>)"
proof -
  have sub: "mset (filterAndRank text (resultsWithLength st)) \<subseteq># mset (map entry (resultsWithLength st))"
    using mset_keptResults[of "resultsWithLength st"] by (simp add: mset_filterAndRank)
  have "set (filterAndRank text (resultsWithLength st)) \<subseteq> entry ` set (resultsWithLength st)"
    using set_mset_mono[OF sub] by simp
  then have k: "\<forall>e \<in> set (filterAndRank text (resultsWithLength st)). keyedBy (seen st) e"
    using assms by (auto simp: seenInv_def)
  have d: "distinct (map tripleOf (filterAndRank text (resultsWithLength st)))"
    using assms by (intro distinct_filterAndRank) (simp add: seenInv_def)
  show ?thesis using assms k d by (simp add: seenInv_def)
qed

lemma mainStage_inv:
  "seenInv (mainStage tr text w) \<and> frame w (env (mainStage tr text w))"
proof -
  define ds where "ds = map fst (getDictionaryIndex w)"
  define w1 where "w1 = fold (\<lambda>dictName w0. snd (getDataStoreData dictName (charAt0 text) w0)) ds w"
  define st0 where "st0 = initialState w1"
  define st1 where "st1 = substringLoop tr text (containsKanji text) ds (length text) st0"
  have m: "mainStage tr text w = (if length (resultsWithLength st1) > 0
      then st1\<lparr>results := filterAndRank text (resultsWithLength st1)\<rparr> else st1)"
    unfolding mainStage_def Let_def st1_def st0_def w1_def ds_def ..
  have f0: "frame w w1" unfolding w1_def by (rule frame_prefetch)
  have i0: "seenInv st0" unfolding st0_def by (rule seenInv_initial)
  have i1: "seenInv st1" "frame (env st0) (env st1)"
    using substringLoop_inv[OF i0] unfolding st1_def by blast+
  have f1: "frame w (env st1)" using f0 i1(2) frame_trans unfolding st0_def initialState_def by force
  show ?thesis unfolding m using i1(1) f1 seenInv_ranked[OF i1(1)] by simp
qed

lemma fallback_inv:
  assumes "seenInv st"
  shows "seenInv (fold (fallbackDictionary text hk ds) ds' st) \<and>
         frame (env st) (env (fold (fallbackDictionary text hk ds) ds' st))"
proof -
  have "lookupSteps (length text) st (fold (fallbackDictionary text hk ds) ds' st)"
    by (rule fold_steps) (rule steps_fallbackDictionary)
  then show ?thesis using assms seenInv_steps frame_steps by blast
qed

text \<open>
  C10. The list that \<open>lookupTerm\<close> returns never holds two entries with the same triple of
  dictionary, term and reading, provided that the result lists in the result cache hold none;
  and the result lists in the cache afterwards hold none either, so the proviso is an
  invariant of the cache, which starts empty.
\<close>

theorem lookupTerm_no_duplicates:
  assumes "\<forall>c \<in> set (searchCache w). distinct (map tripleOf (fst (snd c)))"
  shows "distinct (map tripleOf (fst (lookupTerm transform text w))) \<and>
         (\<forall>c \<in> set (searchCache (snd (lookupTerm transform text w))).
             distinct (map tripleOf (fst (snd c))))"
proof (cases "cachedResults w text")
  case (Some rs)
  then obtain ts where c: "map_of (searchCache w) text = Some (rs, ts)"
    by (auto simp: cachedResults_def split: option.splits if_splits)
  then have "(text, (rs, ts)) \<in> set (searchCache w)" by (rule map_of_SomeD)
  then have "distinct (map tripleOf rs)" using assms by force
  moreover have "lookupTerm transform text w = (rs, w)"
    using Some by (simp add: lookupTerm_def)
  ultimately show ?thesis using assms by simp
next
  case None
  define st2 where "st2 = mainStage transform text w"
  define ds where "ds = map fst (getDictionaryIndex w)"
  define st3 where "st3 = (if length (results st2) = 0 \<and> length text \<ge> 2
                             then fold (fallbackDictionary text (containsKanji text) ds) ds st2
                             else st2)"
  define ranked where "ranked = jsSort entryScoreDescending (results st3)"
  define c1 where "c1 = (if length (searchCache (env st3)) \<ge> MAX_CACHE_SIZE then tl (searchCache (env st3))
                            else searchCache (env st3))"
  have l: "lookupTerm transform text w =
     (if length (resultsWithLength st2) > 0 \<and> length (results st2) > 0
      then (results st2, env st2)
      else (ranked, (env st3)\<lparr>searchCache := AList.update text (ranked, now (env st3)) c1\<rparr>))"
    using None unfolding lookupTerm_def Let_def st2_def ds_def st3_def ranked_def c1_def
    by simp
  have i2: "seenInv st2" "frame w (env st2)"
    using mainStage_inv[of transform "text" w] unfolding st2_def by blast+
  have i3: "seenInv st3" "frame w (env st3)"
    using i2 fallback_inv[OF i2(1), of "text" "containsKanji text" ds ds] frame_trans
    unfolding st3_def by (auto split: if_splits)
  have d2: "distinct (map tripleOf (results st2))" using i2(1) by (simp add: seenInv_def)
  have d3: "distinct (map tripleOf ranked)"
    unfolding ranked_def distinct_map_jsSort using i3(1) by (simp add: seenInv_def)
  have s2: "searchCache (env st2) = searchCache w" using i2(2) by (simp add: frame_def)
  have s3: "searchCache (env st3) = searchCache w" using i3(2) by (simp add: frame_def)
  have "set c1 \<subseteq> set (searchCache w)"
    unfolding c1_def s3 by (cases "searchCache w") auto
  then have c: "set (AList.update text (ranked, now (env st3)) c1) \<subseteq>
      insert (text, (ranked, now (env st3))) (set (searchCache w))"
    using set_update_subset[of "text" "(ranked, now (env st3))" c1] by blast
  have "\<forall>c \<in> set (AList.update text (ranked, now (env st3)) c1). distinct (map tripleOf (fst (snd c)))"
  proof
    fix x assume "x \<in> set (AList.update text (ranked, now (env st3)) c1)"
    then have "x = (text, (ranked, now (env st3))) \<or> x \<in> set (searchCache w)" using c by blast
    then show "distinct (map tripleOf (fst (snd x)))" using d3 assms by auto
  qed
  then show ?thesis unfolding l using d2 d3 s2 assms by simp
qed

lemma cache_w_abc_cached: "searchCache w_abc_cached = [(js ''zz'', ([], 0))]"
  by code_simp

theorem lookupTerm_no_duplicates_witness:
  "searchCache w_abc_cached = [(js ''zz'', ([], 0))] \<and>
   length (fst (lookupTerm noTransform (js ''abc'') w_abc_cached)) = 2 \<and>
   distinct (map tripleOf (fst (lookupTerm noTransform (js ''abc'') w_abc_cached)))"
proof -
  have h: "\<forall>c \<in> set (searchCache w_abc_cached). distinct (map tripleOf (fst (snd c)))"
    by (simp add: cache_w_abc_cached)
  have n: "length (fst (lookupTerm noTransform (js ''abc'') w_abc_cached)) = 2"
    by code_simp
  show ?thesis
    using lookupTerm_no_duplicates[OF h, of noTransform "js ''abc''"] n cache_w_abc_cached by simp
qed

section \<open>The substring loop: skip test and early exit\<close>

text \<open>The flag \<open>foundAtThisLength\<close> in the exact pass.\<close>

lemma found_addReading:
  "foundAtThisLength (addReading text len d e st) = foundAtThisLength st"
  by (simp add: addReading_def pushResult_def Let_def)

lemma found_fold_addReading:
  "foundAtThisLength (fold (addReading text len d) es st) = foundAtThisLength st"
  by (induction es arbitrary: st) (simp_all add: found_addReading)

lemma found_readingsOfDictionary:
  "foundAtThisLength (readingsOfDictionary text len k d st) = foundAtThisLength st"
  by (simp add: readingsOfDictionary_def found_fold_addReading split: prod.splits)

lemma found_fold_readingsOfDictionary:
  "foundAtThisLength (fold (readingsOfDictionary text len k) ds st) = foundAtThisLength st"
  by (induction ds arbitrary: st) (simp_all add: found_readingsOfDictionary)

lemma found_searchAllReadingsForTerm:
  "foundAtThisLength (searchAllReadingsForTerm text ds k len st) = foundAtThisLength st"
  by (simp add: searchAllReadingsForTerm_def found_fold_readingsOfDictionary)

lemma foundIfGrown_exactEntry:
  assumes "foundIfGrown rwl0 st"
  shows "foundIfGrown rwl0 (exactEntry text hk ds len stx sth d v e st)"
  using assms unfolding exactEntry_def Let_def foundIfGrown_def
  by (auto simp: found_searchAllReadingsForTerm)

lemma foundIfGrown_fold:
  assumes "\<And>x s. foundIfGrown rwl0 s \<Longrightarrow> foundIfGrown rwl0 (f x s)" "foundIfGrown rwl0 st"
  shows "foundIfGrown rwl0 (fold f xs st)"
  using assms(2) by (induction xs arbitrary: st) (simp_all add: assms(1))

lemma foundIfGrown_exactPass:
  assumes "foundIfGrown rwl0 st"
  shows "foundIfGrown rwl0 (exactPass text hk ds len stx sth vs st)"
proof -
  obtain rs w1 where f: "exactSearches
             (concat (map (\<lambda>variant. map (\<lambda>dictName. (dictName, variant)) ds) vs))
             (env st) = (rs, w1)" by fastforce
  have "foundIfGrown rwl0 (st\<lparr>env := w1\<rparr>)" using assms by (simp add: foundIfGrown_def)
  then have "foundIfGrown rwl0
     (fold (\<lambda>res. fold (exactEntry text hk ds len stx sth (fst res) (snd (snd res))) (fst (snd res)))
        rs (st\<lparr>env := w1\<rparr>))"
    by (intro foundIfGrown_fold foundIfGrown_exactEntry)
  then show ?thesis unfolding exactPass_def f by simp
qed

lemma foundIfGrown_exactStage:
  "foundIfGrown (resultsWithLength st) (exactStage text hk ds len st)"
  unfolding exactStage_def Let_def
  by (rule foundIfGrown_exactPass) (simp add: foundIfGrown_def)

lemma appended_exactStage: "appended len st (exactStage text hk ds len st)"
  by (rule appended_steps) (rule steps_exactStage)

lemma appended_substringIteration: "appended len st (substringIteration tr text hk ds len st)"
  by (rule appended_steps) (rule steps_substringIteration)

lemma substringLoop_Suc:
  "substringLoop tr text hk ds (Suc n) st =
     (if Suc n \<le> 2 \<and> maxOriginalTextLength (substringIteration tr text hk ds (Suc n) st) \<ge> 3
      then substringIteration tr text hk ds (Suc n) st
      else substringLoop tr text hk ds n (substringIteration tr text hk ds (Suc n) st))"
  by (simp add: Let_def)

text \<open>
  C4. When the loop reaches the length \<open>len\<close>, every match recorded so far is longer.
  Then the deinflection pass at \<open>len\<close> is skipped exactly when \<open>len\<close> is at least 4
  and the exact pass at \<open>len\<close> recorded an exact match that is not from deinflection, at that
  length. The round is the exact pass alone when the pass is skipped, and the exact pass
  followed by the deinflection pass otherwise; after a skip the loop goes on with the
  length \<open>len - 1\<close>. After the round no recorded match is shorter than \<open>len\<close>, so the
  condition holds again for the next length.
\<close>

theorem skip_deinflections_iff:
  assumes "\<forall>r \<in> set (resultsWithLength st). len < originalTextLength r"
  shows "(shouldSkipDeinflections len (exactStage text hasKanji dictNames len st) \<longleftrightarrow>
            4 \<le> len \<and>
            (\<exists>r \<in> set (drop (length (resultsWithLength st))
                           (resultsWithLength (exactStage text hasKanji dictNames len st))).
                readingExactMatch r \<and> \<not> fromDeinflection r \<and> originalTextLength r = len)) \<and>
         substringIteration transform text hasKanji dictNames len st =
           (if shouldSkipDeinflections len (exactStage text hasKanji dictNames len st)
            then exactStage text hasKanji dictNames len st
            else deinflectionPass transform text hasKanji dictNames len (searchVariantsOf text len)
                   (exactStage text hasKanji dictNames len st)) \<and>
         (shouldSkipDeinflections len (exactStage text hasKanji dictNames len st) \<longrightarrow>
            substringLoop transform text hasKanji dictNames len st =
              substringLoop transform text hasKanji dictNames (len - 1)
                (exactStage text hasKanji dictNames len st)) \<and>
         (\<forall>r \<in> set (resultsWithLength (substringIteration transform text hasKanji dictNames len st)).
             len \<le> originalTextLength r)"
proof -
  let ?st1 = "exactStage text hasKanji dictNames len st"
  obtain new where n: "resultsWithLength ?st1 = resultsWithLength st @ new"
      "\<forall>r \<in> set new. originalTextLength r = len"
    using appended_exactStage[of len st "text" hasKanji dictNames] unfolding appended_def by blast
  have d: "drop (length (resultsWithLength st)) (resultsWithLength ?st1) = new"
    using n(1) by simp
  have f: "new \<noteq> [] \<Longrightarrow> foundAtThisLength ?st1"
    using foundIfGrown_exactStage[of st "text" hasKanji dictNames len] n(1)
    by (simp add: foundIfGrown_def)
  have old: "\<not> (originalTextLength r = len \<and> readingExactMatch r \<and> \<not> fromDeinflection r)"
    if "r \<in> set (resultsWithLength st)" for r
    using that assms by auto
  have flt: "filter (\<lambda>r. originalTextLength r = len \<and> readingExactMatch r \<and> \<not> fromDeinflection r)
               (resultsWithLength ?st1) =
             filter (\<lambda>r. originalTextLength r = len \<and> readingExactMatch r \<and> \<not> fromDeinflection r) new"
    unfolding n(1) using old by (simp add: filter_empty_conv)
  have a: "shouldSkipDeinflections len ?st1 \<longleftrightarrow>
            4 \<le> len \<and> (\<exists>r \<in> set new. readingExactMatch r \<and> \<not> fromDeinflection r \<and>
                                    originalTextLength r = len)"
  proof
    assume "shouldSkipDeinflections len ?st1"
    then have "4 \<le> len" and
      "filter (\<lambda>r. originalTextLength r = len \<and> readingExactMatch r \<and> \<not> fromDeinflection r) new \<noteq> []"
      unfolding shouldSkipDeinflections_def flt by auto
    then show "4 \<le> len \<and> (\<exists>r \<in> set new. readingExactMatch r \<and> \<not> fromDeinflection r \<and>
                                    originalTextLength r = len)"
      by (auto simp: filter_empty_conv)
  next
    assume r: "4 \<le> len \<and> (\<exists>r \<in> set new. readingExactMatch r \<and> \<not> fromDeinflection r \<and>
                                    originalTextLength r = len)"
    then have "new \<noteq> []" by auto
    then have "foundAtThisLength ?st1" by (rule f)
    moreover have "filter (\<lambda>r. originalTextLength r = len \<and> readingExactMatch r \<and> \<not> fromDeinflection r) new \<noteq> []"
      using r by (auto simp: filter_empty_conv)
    ultimately show "shouldSkipDeinflections len ?st1"
      unfolding shouldSkipDeinflections_def flt using r by simp
  qed
  have b: "substringIteration transform text hasKanji dictNames len st =
           (if shouldSkipDeinflections len ?st1 then ?st1
            else deinflectionPass transform text hasKanji dictNames len (searchVariantsOf text len) ?st1)"
    by (simp add: substringIteration_def Let_def)
  have c: "substringLoop transform text hasKanji dictNames len st =
              substringLoop transform text hasKanji dictNames (len - 1) ?st1"
    if s: "shouldSkipDeinflections len ?st1"
  proof -
    from s have "4 \<le> len" by (simp add: shouldSkipDeinflections_def)
    then obtain m where m: "len = Suc m" "\<not> Suc m \<le> 2" by (cases len) auto
    show ?thesis using s b unfolding m(1) substringLoop_Suc using m(2) by simp
  qed
  obtain new2 where n2: "resultsWithLength (substringIteration transform text hasKanji dictNames len st) =
      resultsWithLength st @ new2" "\<forall>r \<in> set new2. originalTextLength r = len"
    using appended_substringIteration[of len st transform "text" hasKanji dictNames]
    unfolding appended_def by blast
  have e: "\<forall>r \<in> set (resultsWithLength (substringIteration transform text hasKanji dictNames len st)).
             len \<le> originalTextLength r"
    unfolding n2(1) using n2(2) assms by auto
  show ?thesis unfolding d using a b c e by blast
qed

lemma iteration_records:
  assumes "\<forall>r \<in> set (resultsWithLength st). n < originalTextLength r \<and>
              originalTextLength r \<le> maxOriginalTextLength st"
  shows "\<forall>r \<in> set (resultsWithLength (substringIteration tr text hk ds n st)).
            n \<le> originalTextLength r \<and>
            originalTextLength r \<le> maxOriginalTextLength (substringIteration tr text hk ds n st)"
proof -
  obtain new where n: "resultsWithLength (substringIteration tr text hk ds n st) =
      resultsWithLength st @ new" "\<forall>r \<in> set new. originalTextLength r = n"
      "maxOriginalTextLength (substringIteration tr text hk ds n st) =
         (if new = [] then maxOriginalTextLength st else max (maxOriginalTextLength st) n)"
    using appended_substringIteration[of n st tr "text" hk ds] unfolding appended_def by blast
  show ?thesis unfolding n(1) n(3) using n(2) assms by (cases "new = []") (auto simp: Ball_def)
qed

lemma max_iteration:
  "maxOriginalTextLength (substringIteration tr text hk ds n st) \<le> max (maxOriginalTextLength st) n"
  using appended_substringIteration[of n st tr "text" hk ds] unfolding appended_def
  by (auto split: if_splits)

lemma substringLoop_no_single:
  assumes "loopInv n st"
  shows "(\<exists>r \<in> set (resultsWithLength (substringLoop tr text hk ds n st)). 3 \<le> originalTextLength r) \<longrightarrow>
         (\<forall>r \<in> set (resultsWithLength (substringLoop tr text hk ds n st)). originalTextLength r \<noteq> 1)"
  using assms
proof (induction n arbitrary: st)
  case 0
  then have "\<forall>r \<in> set (resultsWithLength st). originalTextLength r < 3"
    unfolding loopInv_def by fastforce
  then show ?case by fastforce
next
  case (Suc n)
  let ?st1 = "substringIteration tr text hk ds (Suc n) st"
  have rec: "\<forall>r \<in> set (resultsWithLength ?st1). Suc n \<le> originalTextLength r \<and>
            originalTextLength r \<le> maxOriginalTextLength ?st1"
    using Suc.prems by (intro iteration_records) (simp add: loopInv_def)
  show ?case
  proof (cases "Suc n \<le> 2 \<and> maxOriginalTextLength ?st1 \<ge> 3")
    case True
    then have l: "substringLoop tr text hk ds (Suc n) st = ?st1" by (simp add: substringLoop_Suc)
    have "n \<noteq> 0"
    proof
      assume "n = 0"
      then have "maxOriginalTextLength st < 3" using Suc.prems by (simp add: loopInv_def)
      then have "maxOriginalTextLength ?st1 < 3"
        using max_iteration[of tr "text" hk ds "Suc n" st] \<open>n = 0\<close> by simp
      then show False using True by simp
    qed
    then have "\<forall>r \<in> set (resultsWithLength ?st1). originalTextLength r \<noteq> 1"
      using rec by fastforce
    then show ?thesis unfolding l by blast
  next
    case False
    then have l: "substringLoop tr text hk ds (Suc n) st = substringLoop tr text hk ds n ?st1"
      by (auto simp: substringLoop_Suc)
    have "loopInv n ?st1"
      unfolding loopInv_def using rec False by fastforce
    then show ?thesis unfolding l by (rule Suc.IH)
  qed
qed

lemma records_le_max_iteration:
  assumes "\<forall>r \<in> set (resultsWithLength st). originalTextLength r \<le> maxOriginalTextLength st"
  shows "\<forall>r \<in> set (resultsWithLength (substringIteration tr text hk ds n st)).
            originalTextLength r \<le> maxOriginalTextLength (substringIteration tr text hk ds n st)"
proof -
  obtain new where n: "resultsWithLength (substringIteration tr text hk ds n st) =
      resultsWithLength st @ new" "\<forall>r \<in> set new. originalTextLength r = n"
      "maxOriginalTextLength (substringIteration tr text hk ds n st) =
         (if new = [] then maxOriginalTextLength st else max (maxOriginalTextLength st) n)"
    using appended_substringIteration[of n st tr "text" hk ds] unfolding appended_def by blast
  show ?thesis unfolding n(1) n(3) using n(2) assms by (cases "new = []") (auto simp: Ball_def)
qed

lemma records_mainStage:
  "resultsWithLength (mainStage tr text w) =
   resultsWithLength (substringLoop tr text (containsKanji text) (map fst (getDictionaryIndex w))
     (length text)
     (initialState (fold (\<lambda>dictName w0. snd (getDataStoreData dictName (charAt0 text) w0))
        (map fst (getDictionaryIndex w)) w)))"
  by (simp add: mainStage_def Let_def)

text \<open>
  C5. When a round for a length of 1 or 2 ends and a match of length 3 or more is recorded,
  the loop ends with that round. In the whole lookup, a recorded match of length 3 or more
  excludes recorded matches of length 1: the length 1 is not processed then. The length 2
  is: the counterexample has a match of length 4 and a match recorded at length 2.
\<close>

theorem early_exit_after_short_length:
  "((\<forall>r \<in> set (resultsWithLength st). originalTextLength r \<le> maxOriginalTextLength st) \<and>
    0 < len \<and> len \<le> 2 \<and>
    (\<exists>r \<in> set (resultsWithLength (substringIteration transform text hasKanji dictNames len st)).
        3 \<le> originalTextLength r) \<longrightarrow>
    substringLoop transform text hasKanji dictNames len st =
      substringIteration transform text hasKanji dictNames len st) \<and>
   ((\<exists>r \<in> set (resultsWithLength (mainStage transform text w)). 3 \<le> originalTextLength r) \<longrightarrow>
    (\<forall>r \<in> set (resultsWithLength (mainStage transform text w)). originalTextLength r \<noteq> 1))"
proof -
  have a: "substringLoop transform text hasKanji dictNames len st =
      substringIteration transform text hasKanji dictNames len st"
    if h: "\<forall>r \<in> set (resultsWithLength st). originalTextLength r \<le> maxOriginalTextLength st"
      "0 < len" "len \<le> 2"
      "\<exists>r \<in> set (resultsWithLength (substringIteration transform text hasKanji dictNames len st)).
        3 \<le> originalTextLength r"
  proof -
    from h(2) obtain m where m: "len = Suc m" by (cases len) auto
    have "3 \<le> maxOriginalTextLength (substringIteration transform text hasKanji dictNames len st)"
      using records_le_max_iteration[OF h(1), of transform "text" hasKanji dictNames len] h(4)
      by (meson le_trans)
    then show ?thesis using h(3) unfolding m substringLoop_Suc by simp
  qed
  have "loopInv (length text) (initialState w1)" for w1
    by (simp add: loopInv_def initialState_def)
  then have b: "(\<exists>r \<in> set (resultsWithLength (mainStage transform text w)). 3 \<le> originalTextLength r) \<longrightarrow>
    (\<forall>r \<in> set (resultsWithLength (mainStage transform text w)). originalTextLength r \<noteq> 1)"
    unfolding records_mainStage by (rule substringLoop_no_single)
  show ?thesis using a b by blast
qed

theorem early_exit_after_short_length_counterexample:
  "map originalTextLength (resultsWithLength (mainStage noTransform (js ''abcd'') w_abcd)) = [4, 2] \<and>
   map term' (fst (lookupTerm noTransform (js ''abcd'') w_abcd)) = [js ''abcd'', js ''ab'']"
  by code_simp

theorem early_exit_after_short_length_witness:
  "map originalTextLength (resultsWithLength (substringIteration noTransform (js ''abcd'') False [js ''D''] 2 st_abcd2)) = [4, 2] \<and>
   substringLoop noTransform (js ''abcd'') False [js ''D''] 2 st_abcd2 =
     substringIteration noTransform (js ''abcd'') False [js ''D''] 2 st_abcd2 \<and>
   1 \<notin> originalTextLength ` set (resultsWithLength (mainStage noTransform (js ''abcd'') w_abcd))"
proof -
  have h1: "\<forall>r \<in> set (resultsWithLength st_abcd2). originalTextLength r \<le> maxOriginalTextLength st_abcd2"
    by code_simp
  have r: "map originalTextLength (resultsWithLength
      (substringIteration noTransform (js ''abcd'') False [js ''D''] 2 st_abcd2)) = [4, 2]"
    by code_simp
  have "4 \<in> set (map originalTextLength (resultsWithLength
      (substringIteration noTransform (js ''abcd'') False [js ''D''] 2 st_abcd2)))"
    unfolding r by simp
  then have h2: "\<exists>r \<in> set (resultsWithLength
      (substringIteration noTransform (js ''abcd'') False [js ''D''] 2 st_abcd2)). 3 \<le> originalTextLength r"
    by force
  have m: "map originalTextLength (resultsWithLength (mainStage noTransform (js ''abcd'') w_abcd)) = [4, 2]"
    by code_simp
  have "4 \<in> set (map originalTextLength (resultsWithLength (mainStage noTransform (js ''abcd'') w_abcd)))"
    unfolding m by simp
  then have h3: "\<exists>r \<in> set (resultsWithLength (mainStage noTransform (js ''abcd'') w_abcd)).
      3 \<le> originalTextLength r"
    by force
  note t = early_exit_after_short_length[of st_abcd2 2 noTransform "js ''abcd''" False "[js ''D'']" w_abcd]
  have e: "substringLoop noTransform (js ''abcd'') False [js ''D''] 2 st_abcd2 =
     substringIteration noTransform (js ''abcd'') False [js ''D''] 2 st_abcd2"
    using t h1 h2 by simp
  have n: "\<forall>r \<in> set (resultsWithLength (mainStage noTransform (js ''abcd'') w_abcd)).
      originalTextLength r \<noteq> 1"
    using t h3 by blast
  show ?thesis using r e n by auto
qed

theorem skip_deinflections_iff_witness:
  "map originalTextLength (resultsWithLength st_abcde5) = [5] \<and>
   map originalTextLength
     (resultsWithLength (exactStage (js ''abcde'') False [js ''D''] 4 st_abcde5)) = [5, 4] \<and>
   shouldSkipDeinflections 4 (exactStage (js ''abcde'') False [js ''D''] 4 st_abcde5) \<and>
   substringIteration noTransform (js ''abcde'') False [js ''D''] 4 st_abcde5 =
     exactStage (js ''abcde'') False [js ''D''] 4 st_abcde5 \<and>
   substringLoop noTransform (js ''abcde'') False [js ''D''] 4 st_abcde5 =
     substringLoop noTransform (js ''abcde'') False [js ''D''] 3
       (exactStage (js ''abcde'') False [js ''D''] 4 st_abcde5)"
proof -
  have r5: "map originalTextLength (resultsWithLength st_abcde5) = [5]"
    by code_simp
  have h: "\<forall>r \<in> set (resultsWithLength st_abcde5). 4 < originalTextLength r"
    by code_simp
  have r4: "map originalTextLength
     (resultsWithLength (exactStage (js ''abcde'') False [js ''D''] 4 st_abcde5)) = [5, 4]"
    by code_simp
  have x: "\<exists>r \<in> set (drop (length (resultsWithLength st_abcde5))
                (resultsWithLength (exactStage (js ''abcde'') False [js ''D''] 4 st_abcde5))).
              readingExactMatch r \<and> \<not> fromDeinflection r \<and> originalTextLength r = 4"
    by code_simp
  note t = skip_deinflections_iff[OF h, of "js ''abcde''" False "[js ''D'']" noTransform]
  have s: "shouldSkipDeinflections 4 (exactStage (js ''abcde'') False [js ''D''] 4 st_abcde5)"
    using t x by simp
  show ?thesis using r5 r4 s t by simp
qed

section \<open>Sorting with a consistent comparator\<close>

lemma set_insertBy: "set (insertBy cmp x ys) = insert x (set ys)"
  by (induction ys) auto

lemma sorted_insertBy:
  assumes total: "\<forall>a \<in> S. \<forall>b \<in> S. cmp a b \<le> 0 \<or> cmp b a \<le> 0"
    and trans: "\<forall>a \<in> S. \<forall>b \<in> S. \<forall>c \<in> S. cmp a b \<le> 0 \<longrightarrow> cmp b c \<le> 0 \<longrightarrow> cmp a c \<le> 0"
    and "x \<in> S" "set ys \<subseteq> S" "sorted_wrt (\<lambda>a b. cmp a b \<le> 0) ys"
  shows "sorted_wrt (\<lambda>a b. cmp a b \<le> 0) (insertBy cmp x ys)"
  using assms(3-5)
proof (induction ys)
  case Nil
  show ?case by simp
next
  case (Cons y ys)
  show ?case
  proof (cases "cmp x y \<le> 0")
    case True
    have "cmp x z \<le> 0" if "z \<in> set ys" for z
    proof -
      have "cmp y z \<le> 0" using Cons.prems(3) that by simp
      then show ?thesis using trans True Cons.prems(1,2) that by (meson list.set_intros subsetD)
    qed
    then show ?thesis using True Cons.prems(3) by simp
  next
    case False
    then have yx: "cmp y x \<le> 0" using total Cons.prems(1,2) by (meson list.set_intros(1) subsetD)
    have "sorted_wrt (\<lambda>a b. cmp a b \<le> 0) (insertBy cmp x ys)"
      using Cons.IH Cons.prems by simp
    then show ?thesis using False yx Cons.prems(3) by (simp add: set_insertBy)
  qed
qed

lemma sorted_jsSort:
  assumes total: "\<forall>a \<in> S. \<forall>b \<in> S. cmp a b \<le> 0 \<or> cmp b a \<le> 0"
    and trans: "\<forall>a \<in> S. \<forall>b \<in> S. \<forall>c \<in> S. cmp a b \<le> 0 \<longrightarrow> cmp b c \<le> 0 \<longrightarrow> cmp a c \<le> 0"
    and "set xs \<subseteq> S"
  shows "sorted_wrt (\<lambda>a b. cmp a b \<le> 0) (jsSort cmp xs)"
  using assms(3)
proof (induction xs)
  case Nil
  show ?case by (simp add: jsSort_def)
next
  case (Cons x xs)
  have s: "sorted_wrt (\<lambda>a b. cmp a b \<le> 0) (jsSort cmp xs)" using Cons by simp
  have "set (jsSort cmp xs) \<subseteq> S" using Cons.prems by (simp add: set_jsSort)
  then have "sorted_wrt (\<lambda>a b. cmp a b \<le> 0) (insertBy cmp x (jsSort cmp xs))"
    using sorted_insertBy[OF total trans _ _ s, of x] Cons.prems by simp
  then show ?case by (simp add: jsSort_def)
qed

lemma sorted_by_score:
  "sorted_wrt (\<lambda>a b. score b \<le> score a) (jsSort entryScoreDescending xs)"
proof -
  have "sorted_wrt (\<lambda>a b. entryScoreDescending a b \<le> 0) (jsSort entryScoreDescending xs)"
    by (rule sorted_jsSort[where S = UNIV]) (auto simp: entryScoreDescending_def)
  then show ?thesis by (simp add: entryScoreDescending_def)
qed

section \<open>The fallback\<close>

lemma results_addReading: "results (addReading text len d e st) = results st"
  by (simp add: addReading_def pushResult_def Let_def)

lemma results_fold_addReading: "results (fold (addReading text len d) es st) = results st"
  by (induction es arbitrary: st) (simp_all add: results_addReading)

lemma results_readingsOfDictionary: "results (readingsOfDictionary text len k d st) = results st"
  by (simp add: readingsOfDictionary_def results_fold_addReading split: prod.splits)

lemma results_fold_readingsOfDictionary:
  "results (fold (readingsOfDictionary text len k) ds st) = results st"
  by (induction ds arbitrary: st) (simp_all add: results_readingsOfDictionary)

lemma results_searchAllReadingsForTerm:
  "results (searchAllReadingsForTerm text ds k len st) = results st"
  by (simp add: searchAllReadingsForTerm_def results_fold_readingsOfDictionary)

lemma prefix_convert:
  "prefix a b \<Longrightarrow> prefix (convertKatakanaToHiragana a) (convertKatakanaToHiragana b)"
  unfolding convertKatakanaToHiragana_def by (rule map_mono_prefix)

lemma accepted_fallbackEntry:
  assumes "\<forall>e \<in> set (results st). accepted text ds e" "d \<in> set ds"
  shows "\<forall>e \<in> set (results (fallbackEntry text hk ds' d e0 st)). accepted text ds e"
proof -
  have new: "accepted text ds (e0\<lparr>dictionary := Some d\<rparr>)"
    if "reading e0 \<noteq> []" "reading e0 = text \<or> prefix text (reading e0) \<or> prefix (reading e0) text"
    using that assms(2) prefix_convert unfolding accepted_def by auto
  show ?thesis
    unfolding fallbackEntry_def Let_def
    using assms(1) new by (auto simp: results_searchAllReadingsForTerm)
qed

lemma accepted_fold_fallbackEntry:
  assumes "\<forall>e \<in> set (results st). accepted text ds e" "d \<in> set ds"
  shows "\<forall>e \<in> set (results (fold (fallbackEntry text hk ds' d) es st)). accepted text ds e"
  using assms(1)
proof (induction es arbitrary: st)
  case Nil
  then show ?case by simp
next
  case (Cons e0 es)
  have "\<forall>e \<in> set (results (fallbackEntry text hk ds' d e0 st)). accepted text ds e"
    using Cons.prems assms(2) by (rule accepted_fallbackEntry)
  then show ?case using Cons.IH by simp
qed

lemma accepted_fallbackDictionary:
  assumes "\<forall>e \<in> set (results st). accepted text ds e" "d \<in> set ds"
  shows "\<forall>e \<in> set (results (fallbackDictionary text hk ds' d st)). accepted text ds e"
proof -
  obtain rs w1 where f: "searchByPartialReading d text 2 (env st) = (rs, w1)" by fastforce
  have "\<forall>e \<in> set (results (st\<lparr>env := w1\<rparr>)). accepted text ds e" using assms(1) by simp
  then have "\<forall>e \<in> set (results (fold (fallbackEntry text hk ds' d) rs (st\<lparr>env := w1\<rparr>))). accepted text ds e"
    using assms(2) by (rule accepted_fold_fallbackEntry)
  then show ?thesis unfolding fallbackDictionary_def f by simp
qed

lemma accepted_fold_fallbackDictionary:
  assumes "\<forall>e \<in> set (results st). accepted text ds e" "set ds0 \<subseteq> set ds"
  shows "\<forall>e \<in> set (results (fold (fallbackDictionary text hk ds') ds0 st)). accepted text ds e"
  using assms
proof (induction ds0 arbitrary: st)
  case Nil
  then show ?case by simp
next
  case (Cons d ds0)
  have "\<forall>e \<in> set (results (fallbackDictionary text hk ds' d st)). accepted text ds e"
    using Cons.prems by (intro accepted_fallbackDictionary) auto
  then show ?case using Cons.IH Cons.prems(2) by simp
qed

text \<open>
  C2. When the cache has no fresh record, the main stage yields no entry and the query has
  at least 2 code units, \<open>lookupTerm\<close> returns the results of the fallback run over every
  installed dictionary, sorted by score. Every entry of it comes from an installed
  dictionary and passed the test on its reading: the reading is not empty and equals the
  query, starts with it or is a prefix of it; hence the same holds for the reading and the
  query converted to hiragana. The list is in descending order of score.
\<close>

theorem fallback_partial_reading:
  assumes "cachedResults w text = None"
    and "results (mainStage transform text w) = []"
    and "2 \<le> length text"
  shows "fst (lookupTerm transform text w) =
           jsSort entryScoreDescending
             (results (fold (fallbackDictionary text (containsKanji text) (getInstalledDictionaries w))
                         (getInstalledDictionaries w) (mainStage transform text w))) \<and>
         (\<forall>e \<in> set (fst (lookupTerm transform text w)).
            (\<exists>d \<in> set (getInstalledDictionaries w). dictionary e = Some d) \<and>
            reading e \<noteq> [] \<and>
            (reading e = text \<or> prefix text (reading e) \<or> prefix (reading e) text) \<and>
            (convertKatakanaToHiragana (reading e) = convertKatakanaToHiragana text \<or>
             prefix (convertKatakanaToHiragana text) (convertKatakanaToHiragana (reading e)) \<or>
             prefix (convertKatakanaToHiragana (reading e)) (convertKatakanaToHiragana text))) \<and>
         sorted_wrt (\<lambda>a b. score b \<le> score a) (fst (lookupTerm transform text w))"
proof -
  let ?ds = "getInstalledDictionaries w"
  let ?st3 = "fold (fallbackDictionary text (containsKanji text) ?ds) ?ds (mainStage transform text w)"
  have l: "fst (lookupTerm transform text w) = jsSort entryScoreDescending (results ?st3)"
    using assms by (simp add: lookupTerm_def Let_def getInstalledDictionaries_def)
  have "\<forall>e \<in> set (results (mainStage transform text w)). accepted text ?ds e"
    using assms(2) by simp
  then have "\<forall>e \<in> set (results ?st3). accepted text ?ds e"
    by (rule accepted_fold_fallbackDictionary) simp
  then have a: "\<forall>e \<in> set (fst (lookupTerm transform text w)). accepted text ?ds e"
    unfolding l by (simp add: set_jsSort)
  have s: "sorted_wrt (\<lambda>a b. score b \<le> score a) (fst (lookupTerm transform text w))"
    unfolding l by (rule sorted_by_score)
  show ?thesis using l a s unfolding accepted_def by blast
qed

theorem fallback_partial_reading_witness:
  "cachedResults w_abcde (js ''abc'') = None \<and>
   results (mainStage noTransform (js ''abc'') w_abcde) = [] \<and>
   fst (lookupTerm noTransform (js ''abc'') w_abcde) =
     [entryOf (js ''abcde'') (js ''abcde'') 0, entryOf (js ''abcd'') (js ''abcd'') 0] \<and>
   sorted_wrt (\<lambda>a b. score b \<le> score a) (fst (lookupTerm noTransform (js ''abc'') w_abcde))"
proof -
  have h1: "cachedResults w_abcde (js ''abc'') = None" by code_simp
  have h2: "results (mainStage noTransform (js ''abc'') w_abcde) = []" by code_simp
  have h3: "2 \<le> length (js ''abc'')" by code_simp
  have r: "fst (lookupTerm noTransform (js ''abc'') w_abcde) =
     [entryOf (js ''abcde'') (js ''abcde'') 0, entryOf (js ''abcd'') (js ''abcd'') 0]"
    by code_simp
  from fallback_partial_reading[OF h1 h2 h3]
  have s: "sorted_wrt (\<lambda>a b. score b \<le> score a) (fst (lookupTerm noTransform (js ''abc'') w_abcde))"
    by blast
  show ?thesis using h1 h2 r s by blast
qed

section \<open>The ranking\<close>

lemma compareResults_alt:
  "compareResults text a b =
     (if readingExactMatch a \<and> \<not> readingExactMatch b then - 1
      else if \<not> readingExactMatch a \<and> readingExactMatch b then 1
      else if originalTextLength a \<noteq> originalTextLength b
        then int (originalTextLength b) - int (originalTextLength a)
      else if hasReading a \<and> \<not> hasReading b then - 1
      else if \<not> hasReading a \<and> hasReading b then 1
      else if fromDeinflection a \<and> \<not> fromDeinflection b then - 1
      else if \<not> fromDeinflection a \<and> fromDeinflection b then 1
      else if sharedReading a b
        then int (length (term' (entry a))) - int (length (term' (entry b)))
      else if readingIs (take (originalTextLength a) text) a \<and>
              \<not> readingIs (take (originalTextLength a) text) b then - 1
      else if \<not> readingIs (take (originalTextLength a) text) a \<and>
              readingIs (take (originalTextLength a) text) b then 1
      else score (entry b) - score (entry a))"
  unfolding compareResults_def Let_def hasReading_def sharedReading_def readingIs_def
  by (rule refl)

lemma sharedReading_sym: "sharedReading a b = sharedReading b a"
  by (auto simp: sharedReading_def)

lemma compareResults_total:
  "compareResults text a b \<le> 0 \<or> compareResults text b a \<le> 0"
proof (cases "originalTextLength a = originalTextLength b")
  case False
  then show ?thesis
    unfolding compareResults_alt[of "text" a b] compareResults_alt[of "text" b a]
    by (cases "readingExactMatch a"; cases "readingExactMatch b"; simp; linarith)
next
  case True
  show ?thesis
    unfolding compareResults_alt[of "text" a b] compareResults_alt[of "text" b a]
      sharedReading_sym[of b a] True
    by (cases "readingExactMatch a"; cases "readingExactMatch b";
        cases "hasReading a"; cases "hasReading b";
        cases "fromDeinflection a"; cases "fromDeinflection b";
        cases "sharedReading a b";
        cases "readingIs (take (originalTextLength b) text) a";
        cases "readingIs (take (originalTextLength b) text) b"; simp; linarith)
qed

lemma keptResults_records: "keptResults rwl = map entry (keptRecords rwl)"
  unfolding keptResults_def keptRecords_def Let_def
  by (simp add: map_concat comp_def)

lemma set_by_lengths:
  "set (concat (map (\<lambda>len. filter (P len) rwl) ls)) \<subseteq> set rwl"
  by auto

lemma set_keptRecords: "set (keptRecords rwl) \<subseteq> set rwl"
  unfolding keptRecords_def Let_def by auto

lemma mset_records_by_lengths:
  assumes "distinct ls"
    and "\<And>l. mset (g l) = filter_mset (\<lambda>r. originalTextLength r = l) (mset rwl)"
  shows "mset (concat (map g ls)) = filter_mset (\<lambda>r. originalTextLength r \<in> set ls) (mset rwl)"
  using assms(1)
proof (induction ls)
  case Nil
  show ?case by simp
next
  case (Cons l ls)
  have "filter_mset (\<lambda>r. originalTextLength r \<in> set (l # ls)) (mset rwl) =
        filter_mset (\<lambda>r. originalTextLength r = l) (mset rwl) +
        filter_mset (\<lambda>r. originalTextLength r \<in> set ls) (mset rwl)"
    using Cons.prems by (induction rwl) auto
  then show ?case using Cons assms(2) by simp
qed

lemma mset_keptRecords: "mset (keptRecords rwl) \<subseteq># mset rwl"
proof -
  have g1: "mset (filter readingExactMatch (filter (\<lambda>r. originalTextLength r = l) rwl) @
              filter (\<lambda>r. \<not> readingExactMatch r) (filter (\<lambda>r. originalTextLength r = l) rwl)) =
        filter_mset (\<lambda>r. originalTextLength r = l) (mset rwl)" for l
    using mset_split_filter[of "\<lambda>r. r" readingExactMatch "filter (\<lambda>r. originalTextLength r = l) rwl"]
    by (simp only: mset_filter list.map_ident)
  have g2: "mset (filter (\<lambda>r. originalTextLength r = l) rwl) =
        filter_mset (\<lambda>r. originalTextLength r = l) (mset rwl)" for l
    by simp
  have d: "distinct (jsSort lengthDescending (fold setAdd xs []))" for xs
    by (simp add: distinct_jsSort distinct_fold_setAdd)
  show ?thesis
  proof (cases "length (filter readingExactMatch rwl) > 0")
    case True
    then show ?thesis
      unfolding keptRecords_def Let_def
      using mset_records_by_lengths[OF d g1] by simp
  next
    case False
    have "distinct (filter P (jsSort lengthDescending (fold setAdd xs [])))" for P xs
      using d by simp
    then show ?thesis
      unfolding keptRecords_def Let_def
      using False mset_records_by_lengths[OF _ g2] by simp
  qed
qed

lemma resultInfo_own:
  assumes "r \<in> set rwl"
    and "\<forall>a \<in> set rwl. \<forall>b \<in> set rwl.
           term' (entry a) = term' (entry b) \<and> reading (entry a) = reading (entry b) \<longrightarrow>
           originalTextLength a = originalTextLength b \<and>
           fromDeinflection a = fromDeinflection b \<and>
           readingExactMatch a = readingExactMatch b"
  shows "resultInfo rwl (entry r) = r"
proof -
  let ?P = "\<lambda>x. term' (entry x) = term' (entry r) \<and> reading (entry x) = reading (entry r)"
  have "find ?P rwl \<noteq> None" using assms(1) by (auto simp: find_None_iff)
  then obtain r0 where f: "find ?P rwl = Some r0" by auto
  then have "r0 \<in> set rwl" "?P r0"
    by (auto simp: find_Some_iff)
  then have "originalTextLength r0 = originalTextLength r \<and>
           fromDeinflection r0 = fromDeinflection r \<and>
           readingExactMatch r0 = readingExactMatch r"
    using assms by blast
  then show ?thesis unfolding resultInfo_def f by simp
qed

lemma filterAndRank_records:
  assumes "\<forall>a \<in> set rwl. \<forall>b \<in> set rwl.
           term' (entry a) = term' (entry b) \<and> reading (entry a) = reading (entry b) \<longrightarrow>
           originalTextLength a = originalTextLength b \<and>
           fromDeinflection a = fromDeinflection b \<and>
           readingExactMatch a = readingExactMatch b"
  shows "filterAndRank text rwl = map entry (jsSort (compareResults text) (keptRecords rwl))"
proof -
  have "map (resultInfo rwl) (map entry (keptRecords rwl)) = keptRecords rwl"
  proof -
    have "map (\<lambda>r. resultInfo rwl (entry r)) (keptRecords rwl) = map (\<lambda>r. r) (keptRecords rwl)"
      by (rule map_cong[OF refl]) (use set_keptRecords resultInfo_own[OF _ assms] in blast)
    then show ?thesis by (simp add: comp_def)
  qed
  then show ?thesis unfolding filterAndRank_def keptResults_records by simp
qed

lemma results_mainStage:
  "resultsWithLength (mainStage tr text w) \<noteq> [] \<Longrightarrow>
   results (mainStage tr text w) = filterAndRank text (resultsWithLength (mainStage tr text w))"
  by (simp add: mainStage_def Let_def split: if_splits)

text \<open>
  C3. When the cache has no fresh record and the main stage recorded matches, the returned
  list consists of the entries of recorded matches \<open>rs\<close>, each once, in an order in which no
  match compares greater than a later one under the comparator of the criteria (1) to (7),
  read on the tags of each match. This holds provided that recorded matches with the same
  term and reading carry the same tags, and that the comparison is transitive on the
  recorded matches.
\<close>

theorem ranked_by_criteria:
  assumes "cachedResults w text = None"
    and "resultsWithLength (mainStage transform text w) \<noteq> []"
    and "results (mainStage transform text w) \<noteq> []"
    and "\<forall>a \<in> set (resultsWithLength (mainStage transform text w)).
         \<forall>b \<in> set (resultsWithLength (mainStage transform text w)).
           term' (entry a) = term' (entry b) \<and> reading (entry a) = reading (entry b) \<longrightarrow>
           originalTextLength a = originalTextLength b \<and>
           fromDeinflection a = fromDeinflection b \<and>
           readingExactMatch a = readingExactMatch b"
    and "\<forall>a \<in> set (resultsWithLength (mainStage transform text w)).
         \<forall>b \<in> set (resultsWithLength (mainStage transform text w)).
         \<forall>c \<in> set (resultsWithLength (mainStage transform text w)).
           compareResults text a b \<le> 0 \<longrightarrow> compareResults text b c \<le> 0 \<longrightarrow>
           compareResults text a c \<le> 0"
  shows "\<exists>rs. mset rs \<subseteq># mset (resultsWithLength (mainStage transform text w)) \<and>
              fst (lookupTerm transform text w) = map entry rs \<and>
              sorted_wrt (\<lambda>a b. compareResults text a b \<le> 0) rs"
proof -
  let ?rwl = "resultsWithLength (mainStage transform text w)"
  let ?rs = "jsSort (compareResults text) (keptRecords ?rwl)"
  have l: "fst (lookupTerm transform text w) = results (mainStage transform text w)"
    using assms(1-3) by (simp add: lookupTerm_def Let_def)
  have r: "fst (lookupTerm transform text w) = map entry ?rs"
    unfolding l results_mainStage[OF assms(2)] by (rule filterAndRank_records[OF assms(4)])
  have m: "mset ?rs \<subseteq># mset ?rwl" by (simp add: mset_jsSort mset_keptRecords)
  have tot: "\<forall>a \<in> set ?rwl. \<forall>b \<in> set ?rwl. compareResults text a b \<le> 0 \<or> compareResults text b a \<le> 0"
    using compareResults_total by blast
  have s: "sorted_wrt (\<lambda>a b. compareResults text a b \<le> 0) ?rs"
    using tot assms(5) set_keptRecords by (rule sorted_jsSort)
  show ?thesis using m r s by blast
qed

theorem ranked_by_criteria_counterexample:
  "resultsWithLength (mainStage noTransform [0x30A4, 0x30A8] w_cycle) =
     [cycleIe, cycleIemochi, cycleKa] \<and>
   mset (fst (lookupTerm noTransform [0x30A4, 0x30A8] w_cycle)) =
     mset (map entry [cycleIe, cycleIemochi, cycleKa]) \<and>
   compareResults [0x30A4, 0x30A8] cycleIe cycleIemochi = 5 \<and>
   compareResults [0x30A4, 0x30A8] cycleIemochi cycleKa = 1 \<and>
   compareResults [0x30A4, 0x30A8] cycleKa cycleIe = 5 \<and>
   \<not> isRanked [0x30A4, 0x30A8] [cycleIe, cycleIemochi, cycleKa] \<and>
   \<not> isRanked [0x30A4, 0x30A8] [cycleIe, cycleKa, cycleIemochi] \<and>
   \<not> isRanked [0x30A4, 0x30A8] [cycleIemochi, cycleIe, cycleKa] \<and>
   \<not> isRanked [0x30A4, 0x30A8] [cycleIemochi, cycleKa, cycleIe] \<and>
   \<not> isRanked [0x30A4, 0x30A8] [cycleKa, cycleIe, cycleIemochi] \<and>
   \<not> isRanked [0x30A4, 0x30A8] [cycleKa, cycleIemochi, cycleIe]"
  by code_simp

theorem ranked_by_criteria_witness:
  "fst (lookupTerm noTransform (js ''abcd'') w_abcd) =
     [entryOf (js ''abcd'') (js ''abcd'') 0, entryOf (js ''ab'') (js ''ab'') 0] \<and>
   (\<exists>rs. mset rs \<subseteq># mset (resultsWithLength (mainStage noTransform (js ''abcd'') w_abcd)) \<and>
         fst (lookupTerm noTransform (js ''abcd'') w_abcd) = map entry rs \<and>
         sorted_wrt (\<lambda>a b. compareResults (js ''abcd'') a b \<le> 0) rs)"
proof -
  have h1: "cachedResults w_abcd (js ''abcd'') = None" by code_simp
  have h2: "resultsWithLength (mainStage noTransform (js ''abcd'') w_abcd) \<noteq> []" by code_simp
  have h3: "results (mainStage noTransform (js ''abcd'') w_abcd) \<noteq> []" by code_simp
  have h4: "\<forall>a \<in> set (resultsWithLength (mainStage noTransform (js ''abcd'') w_abcd)).
         \<forall>b \<in> set (resultsWithLength (mainStage noTransform (js ''abcd'') w_abcd)).
           term' (entry a) = term' (entry b) \<and> reading (entry a) = reading (entry b) \<longrightarrow>
           originalTextLength a = originalTextLength b \<and>
           fromDeinflection a = fromDeinflection b \<and>
           readingExactMatch a = readingExactMatch b" by code_simp
  have h5: "\<forall>a \<in> set (resultsWithLength (mainStage noTransform (js ''abcd'') w_abcd)).
         \<forall>b \<in> set (resultsWithLength (mainStage noTransform (js ''abcd'') w_abcd)).
         \<forall>c \<in> set (resultsWithLength (mainStage noTransform (js ''abcd'') w_abcd)).
           compareResults (js ''abcd'') a b \<le> 0 \<longrightarrow> compareResults (js ''abcd'') b c \<le> 0 \<longrightarrow>
           compareResults (js ''abcd'') a c \<le> 0" by code_simp
  have r: "fst (lookupTerm noTransform (js ''abcd'') w_abcd) =
     [entryOf (js ''abcd'') (js ''abcd'') 0, entryOf (js ''ab'') (js ''ab'') 0]"
    by code_simp
  note t = ranked_by_criteria[OF h1 h2 h3 h4 h5]
  show ?thesis using t r by blast
qed

section \<open>The result cache\<close>

text \<open>
  C1. A dictionary \<open>D\<close> holds the terms \<open>abc\<close> and \<open>ab\<close>, and both caches are empty.
  \<open>lookupTerm\<close> of \<open>abc\<close> returns both entries and leaves the result cache empty: the
  list is returned before the cache is written. A lookup without any match (\<open>zz\<close>) does
  store its empty list.
\<close>

theorem lookupTerm_result_not_cached:
  "fst (lookupTerm noTransform (js ''abc'') w_abc) =
     [\<lparr>term' = js ''abc'', reading = js ''abc'', definitions = [], tags = [], score = 0,
        dictionary = Some (js ''D'')\<rparr>,
      \<lparr>term' = js ''ab'', reading = js ''ab'', definitions = [], tags = [], score = 0,
        dictionary = Some (js ''D'')\<rparr>] \<and>
   searchCache w_abc = [] \<and>
   searchCache (snd (lookupTerm noTransform (js ''abc'') w_abc)) = [] \<and>
   searchCache (snd (lookupTerm noTransform (js ''zz'') w_abc)) = [(js ''zz'', ([], 0))]"
  by code_simp

section \<open>The partial-reading search\<close>































section \<open>Importing a record again\<close>

subsection \<open>Own properties\<close>


lemma keys_insertIndexKey:
  "set (map fst (insertIndexKey k v obj)) = insert k (set (map fst obj))"
  by (induction obj) auto



lemma keys_objectSet: "set (map fst (objectSet k v obj)) = insert k (set (map fst obj))"
proof (cases "k \<in> set (map fst obj)")
  case True
  then have "objectSet k v obj = AList.update k v obj" by (simp add: objectSet_def)
  moreover have "map fst (AList.update k v obj) = map fst obj" using True by (simp add: update_keys)
  ultimately show ?thesis using True by auto
next
  case False
  show ?thesis
  proof (cases "isArrayIndex k")
    case True
    then have "objectSet k v obj = insertIndexKey k v obj" using False by (simp add: objectSet_def)
    then show ?thesis by (simp only: keys_insertIndexKey)
  next
    case a: False
    then have "objectSet k v obj = obj @ [(k, v)]" using False by (simp add: objectSet_def)
    then show ?thesis by simp
  qed
qed


subsection \<open>Grouping\<close>














subsection \<open>The merge of two lists\<close>








subsection \<open>The merge of a group into a bucket\<close>





subsection \<open>The store loop\<close>









lemma fold_addUnseen_seen_mono: "snd acc \<subseteq> snd (fold addUnseen xs acc)"
proof (induction xs arbitrary: acc)
  case Nil
  show ?case by simp
next
  case (Cons x xs)
  have "snd acc \<subseteq> snd (addUnseen x acc)" by (auto simp: addUnseen_def)
  also have "\<dots> \<subseteq> snd (fold addUnseen xs (addUnseen x acc))" by (rule Cons.IH)
  finally show ?case by simp
qed










end
